theory Spec2Isabelle
  imports Complex_Main "HOL-Library.Multiset"
begin

section \<open>Data model of the carpool application\<close>

text \<open>
  The TypeScript type \<^verbatim>\<open>Ride\<close> of \<^verbatim>\<open>src/App.tsx\<close>. The source keeps \<^verbatim>\<open>date\<close> as an
  ISO string and the engine reads it only through \<^verbatim>\<open>new Date(r.date).getTime()\<close>; the
  record stores that time value, the epoch milliseconds of the date, as an integer. A
  string that does not parse as a date (time value NaN) has no counterpart here. The fields
  \<^verbatim>\<open>id\<close>, \<^verbatim>\<open>from\<close> and \<^verbatim>\<open>to\<close> are suffixed because the plain names are taken.
\<close>

record Ride =
  id_field :: "string option"
  groupId :: string
  date :: int
  from_field :: string
  to_field :: string
  participants :: "string list"
  driverId :: string

text \<open>
  What \<^verbatim>\<open>nextDriver\<close> and the expressions around it evaluate to: \<^verbatim>\<open>null\<close>,
  \<^verbatim>\<open>undefined\<close> (an array read out of range) or a member id.
\<close>

datatype js_value = Null | Undefined | Str string

section \<open>JavaScript numbers\<close>

text \<open>
  A JavaScript number is an IEEE-754 binary64 value. It is represented by the real number
  it denotes, and every arithmetic operation returns the exact result rounded to the
  nearest binary64 value, ties to the even significand. A positive \<open>x\<close> lies in the
  binade of \<open>exponent x\<close>, which is not below \<open>- 1022\<close> (gradual underflow); the values
  of the binade are the multiples of \<open>ulp x\<close>, 52 binary places below it. Overflow to
  \<^verbatim>\<open>Infinity\<close> and \<^verbatim>\<open>NaN\<close> have no counterpart: the exponent is not bounded above,
  and a weighted count would need more than \<open>10 ^ 308\<close> rides to reach that bound.
\<close>

definition pow2 :: "int \<Rightarrow> real" where
  "pow2 k = 2 powr of_int k"

definition exponent :: "real \<Rightarrow> int" where
  "exponent x = max \<lfloor>log 2 x\<rfloor> (- 1022)"

definition ulp :: "real \<Rightarrow> real" where
  "ulp x = 2 powr of_int (exponent x - 52)"

definition round_even :: "real \<Rightarrow> int" where
  "round_even y =
     (let f = \<lfloor>y\<rfloor>; d = y - of_int f
      in if d < 1 / 2 then f else if 1 / 2 < d then f + 1 else if even f then f else f + 1)"

definition round_pos :: "real \<Rightarrow> real" where
  "round_pos x = of_int (round_even (x / ulp x)) * ulp x"

definition rd :: "real \<Rightarrow> real" where
  "rd x = (if x = 0 then 0 else if 0 < x then round_pos x else - round_pos (- x))"

text \<open>
  The grid of the integer multiples of the least subnormal, on which every binary64 value
  lies.
\<close>

definition on_grid :: "real \<Rightarrow> bool" where
  "on_grid x \<longleftrightarrow> (\<exists>k::int. x = of_int k * pow2 (- 1074))"

text \<open>
  The operators \<^verbatim>\<open>+\<close>, \<^verbatim>\<open>-\<close>, \<^verbatim>\<open>*\<close> and \<^verbatim>\<open>/\<close> on numbers, and \<^verbatim>\<open>Math.pow\<close>.
  ECMAScript leaves the accuracy of \<^verbatim>\<open>Math.pow\<close> to the implementation, apart from
  \<^verbatim>\<open>Math.pow(x, 0) = 1\<close>; it is taken here as the correctly rounded power, for a
  positive base.
\<close>

definition fadd :: "real \<Rightarrow> real \<Rightarrow> real" where
  "fadd a b = rd (a + b)"

definition fsub :: "real \<Rightarrow> real \<Rightarrow> real" where
  "fsub a b = rd (a - b)"

definition fmul :: "real \<Rightarrow> real \<Rightarrow> real" where
  "fmul a b = rd (a * b)"

definition fdiv :: "real \<Rightarrow> real \<Rightarrow> real" where
  "fdiv a b = rd (a / b)"

definition Math_pow :: "real \<Rightarrow> real \<Rightarrow> real" where
  "Math_pow x y = rd (x powr y)"

section \<open>The fairness engine\<close>

text \<open>
  The two maps of the engine, \<^verbatim>\<open>counts\<close> and \<^verbatim>\<open>lastDates\<close>. Time values are integers,
  and \<^verbatim>\<open>Math.max\<close> on them is exact.
\<close>

record tally =
  counts :: "string \<rightharpoonup> real"
  lastDates :: "string \<rightharpoonup> int"

text \<open>\<^verbatim>\<open>m.get(k) || 0\<close>: a missing key and a stored zero both give zero.\<close>

definition or_zero :: "'a::zero option \<Rightarrow> 'a" where
  "or_zero v = (case v of None \<Rightarrow> 0 | Some x \<Rightarrow> if x = 0 then 0 else x)"

text \<open>\<^verbatim>\<open>m.get(k) ?? 0\<close>: only a missing key gives zero.\<close>

definition nullish_zero :: "'a::zero option \<Rightarrow> 'a" where
  "nullish_zero v = (case v of None \<Rightarrow> 0 | Some x \<Rightarrow> x)"

text \<open>The loop \<^verbatim>\<open>for (const m of present)\<close> that sets both maps to zero.\<close>

definition init_member :: "string \<Rightarrow> tally \<Rightarrow> tally" where
  "init_member m st = \<lparr>counts = (counts st)(m \<mapsto> 0), lastDates = (lastDates st)(m \<mapsto> 0)\<rparr>"

definition init :: "string list \<Rightarrow> tally" where
  "init present = fold init_member present \<lparr>counts = Map.empty, lastDates = Map.empty\<rparr>"

text \<open>\<^verbatim>\<open>const DECAY = 0.92\<close>: the literal denotes the binary64 value nearest to 0.92.\<close>

definition DECAY :: real where
  "DECAY = rd 0.92"

text \<open>
  The body of \<^verbatim>\<open>for (const r of history)\<close>. The two time values and the product
  \<^verbatim>\<open>1000 * 60 * 60 * 24 * 30\<close> are integers that binary64 holds exactly; the subtraction,
  the division, the power, the product \<^verbatim>\<open>1 * weight\<close> and the sum each round.
\<close>

definition record_ride :: "int \<Rightarrow> Ride \<Rightarrow> tally \<Rightarrow> tally" where
  "record_ride now r st =
     (let d = date r;
          months = max 0 (fdiv (fsub (of_int now) (of_int d)) (1000 * 60 * 60 * 24 * 30));
          weight = Math_pow DECAY months
      in if counts st (driverId r) \<noteq> None
         then \<lparr>counts = (counts st)(driverId r \<mapsto>
                 fadd (or_zero (counts st (driverId r))) (fmul 1 weight)),
               lastDates = (lastDates st)(driverId r \<mapsto>
                 max (or_zero (lastDates st (driverId r))) d)\<rparr>
         else st)"

definition accumulate :: "int \<Rightarrow> string list \<Rightarrow> Ride list \<Rightarrow> tally" where
  "accumulate now present history = fold (record_ride now) history (init present)"

text \<open>The comparator handed to \<^verbatim>\<open>sort\<close>; both subtractions round.\<close>

definition comparator :: "tally \<Rightarrow> string \<Rightarrow> string \<Rightarrow> real" where
  "comparator st a b =
     (let ca = nullish_zero (counts st a);
          cb = nullish_zero (counts st b)
      in if ca \<noteq> cb then fsub ca cb
         else let la = nullish_zero (lastDates st a);
                  lb = nullish_zero (lastDates st b)
              in fsub (of_int la) (of_int lb))"

text \<open>
  \<^verbatim>\<open>Array.prototype.sort\<close> with a comparator. ECMAScript requires the sort to be stable:
  \<open>a\<close> comes before \<open>b\<close> when the comparator is negative, after it when positive, and
  the two keep their order when it is zero. For a comparator that is consistent, as the
  one above is on binary64 counts, that fixes the result, computed here by insertion from
  the right.
\<close>

fun insert_sorted :: "('a \<Rightarrow> 'a \<Rightarrow> real) \<Rightarrow> 'a \<Rightarrow> 'a list \<Rightarrow> 'a list" where
  "insert_sorted cmp x [] = [x]"
| "insert_sorted cmp x (y # ys) =
     (if cmp x y \<le> 0 then x # y # ys else y # insert_sorted cmp x ys)"

fun js_sort :: "('a \<Rightarrow> 'a \<Rightarrow> real) \<Rightarrow> 'a list \<Rightarrow> 'a list" where
  "js_sort cmp [] = []"
| "js_sort cmp (x # xs) = insert_sorted cmp x (js_sort cmp xs)"

text \<open>\<^verbatim>\<open>xs[0]\<close>, which is \<^verbatim>\<open>undefined\<close> on an empty array.\<close>

definition first_elem :: "string list \<Rightarrow> js_value" where
  "first_elem xs = (case xs of [] \<Rightarrow> Undefined | x # _ \<Rightarrow> Str x)"

text \<open>
  \<^verbatim>\<open>nextDriver({ present, history, nowISO })\<close>. The parameter \<open>clock\<close> is what
  \<^verbatim>\<open>new Date()\<close> reads when the call is made; \<open>nowISO\<close> is \<open>None\<close> for an absent or
  empty string (both are falsy) and otherwise the time value of the date it denotes, so
  \<open>now_of\<close> is \<^verbatim>\<open>nowISO ? new Date(nowISO) : new Date()\<close>. The sorted copy of
  \<open>present\<close>, the source's \<^verbatim>\<open>sorted\<close>, is \<open>sorted_present\<close>, and the result is its
  element at index 0.
\<close>

definition now_of :: "int \<Rightarrow> int option \<Rightarrow> int" where
  "now_of clock nowISO = (case nowISO of Some t \<Rightarrow> t | None \<Rightarrow> clock)"

definition sorted_present :: "int \<Rightarrow> string list \<Rightarrow> Ride list \<Rightarrow> string list" where
  "sorted_present now present history =
     js_sort (comparator (accumulate now present history)) present"

definition nextDriver :: "int \<Rightarrow> string list \<Rightarrow> Ride list \<Rightarrow> int option \<Rightarrow> js_value" where
  "nextDriver clock present history nowISO =
     (if length present = 0 then Null
      else let now = now_of clock nowISO
           in first_elem (sorted_present now present history))"

section \<open>Ride creation\<close>

text \<open>
  The click handler of \<^verbatim>\<open>AddRideDialog\<close> computes
  \<^verbatim>\<open>nextDriver({ present, history: [] }) || present[0]\<close>. The operator \<^verbatim>\<open>||\<close> takes
  its right operand when the left one is falsy: \<^verbatim>\<open>null\<close>, \<^verbatim>\<open>undefined\<close> or the empty
  string.
\<close>

definition truthy :: "js_value \<Rightarrow> bool" where
  "truthy v = (case v of Str s \<Rightarrow> s \<noteq> [] | _ \<Rightarrow> False)"

definition js_or :: "js_value \<Rightarrow> js_value \<Rightarrow> js_value" where
  "js_or a b = (if truthy a then a else b)"

definition addRide_driverId :: "int \<Rightarrow> string list \<Rightarrow> js_value" where
  "addRide_driverId clock present = js_or (nextDriver clock present [] None) (first_elem present)"

section \<open>What the two maps hold\<close>

text \<open>
  The following definitions are not part of the program; the results below are stated
  with them. The rides a member drove, in the order of the history; the weight the loop
  computes for a ride; the weighted drive count, which is the sum of those weights taken
  from left to right in binary64 arithmetic; and the last-drive instant, the latest date
  of those rides, and epoch zero when there is none.
\<close>

definition drives_of :: "string \<Rightarrow> Ride list \<Rightarrow> Ride list" where
  "drives_of m history = filter (\<lambda>r. driverId r = m) history"

definition ride_weight :: "int \<Rightarrow> Ride \<Rightarrow> real" where
  "ride_weight referenceTime r =
     rd (rd 0.92 powr
       max 0 (rd (rd (of_int referenceTime - of_int (date r)) / (1000 * 60 * 60 * 24 * 30))))"

definition weighted_count :: "int \<Rightarrow> Ride list \<Rightarrow> string \<Rightarrow> real" where
  "weighted_count referenceTime history m =
     fold (\<lambda>r c. rd (c + ride_weight referenceTime r)) (drives_of m history) 0"

definition last_drive :: "Ride list \<Rightarrow> string \<Rightarrow> int" where
  "last_drive history m = fold max (map date (drives_of m history)) 0"

text \<open>
  The order of the ranking on the two maps of a tally: weighted drive count ascending,
  then last-drive instant ascending; and the pair of keys it reads.
\<close>

definition ranks_le :: "tally \<Rightarrow> string \<Rightarrow> string \<Rightarrow> bool" where
  "ranks_le st a b \<longleftrightarrow>
     nullish_zero (counts st a) < nullish_zero (counts st b) \<or>
     (nullish_zero (counts st a) = nullish_zero (counts st b) \<and>
      nullish_zero (lastDates st a) \<le> nullish_zero (lastDates st b))"

definition rank_key :: "tally \<Rightarrow> string \<Rightarrow> real \<times> int" where
  "rank_key st m = (nullish_zero (counts st m), nullish_zero (lastDates st m))"

text \<open>A tally whose counts lie on that grid.\<close>

definition grid_counts :: "tally \<Rightarrow> bool" where
  "grid_counts st \<longleftrightarrow> (\<forall>m. on_grid (nullish_zero (counts st m)))"

text \<open>The present list with duplicates removed, first occurrences kept.\<close>

fun keep_first :: "string list \<Rightarrow> string list" where
  "keep_first [] = []"
| "keep_first (x # xs) = x # filter (\<lambda>y. y \<noteq> x) (keep_first xs)"

text \<open>A ride with the given time value and driver, for the concrete instances below.\<close>

definition ride_at :: "int \<Rightarrow> string \<Rightarrow> Ride" where
  "ride_at d m =
     \<lparr>id_field = None, groupId = ''g1'', date = d, from_field = ''Lille'',
      to_field = ''Roubaix'', participants = [m], driverId = m\<rparr>"

section \<open>Rounding to binary64\<close>

lemma round_even_cases: "round_even y = \<lfloor>y\<rfloor> \<or> (round_even y = \<lfloor>y\<rfloor> + 1 \<and> of_int \<lfloor>y\<rfloor> + 1 / 2 \<le> y)"
  unfolding round_even_def Let_def by auto

lemma round_even_ge: "of_int n \<le> y \<Longrightarrow> n \<le> round_even y"
proof -
  assume "of_int n \<le> y"
  then have "n \<le> \<lfloor>y\<rfloor>" by (simp add: le_floor_iff)
  then show ?thesis using round_even_cases [of y] by auto
qed

lemma round_even_le: "y \<le> of_int n \<Longrightarrow> round_even y \<le> n"
proof -
  assume le: "y \<le> of_int n"
  from round_even_cases [of y] show ?thesis
  proof
    assume "round_even y = \<lfloor>y\<rfloor>"
    moreover have "\<lfloor>y\<rfloor> \<le> n" using le by (simp add: floor_le_iff)
    ultimately show ?thesis by simp
  next
    assume up: "round_even y = \<lfloor>y\<rfloor> + 1 \<and> of_int \<lfloor>y\<rfloor> + 1 / 2 \<le> y"
    then have "of_int \<lfloor>y\<rfloor> < (of_int n :: real)" using le by linarith
    then have "\<lfloor>y\<rfloor> < n" by simp
    with up show ?thesis by simp
  qed
qed

lemma round_even_of_int: "round_even (of_int n) = n"
  by (simp add: round_even_def)

lemma round_even_mono: "x \<le> y \<Longrightarrow> round_even x \<le> round_even y"
proof -
  assume xy: "x \<le> y"
  have fl: "\<lfloor>x\<rfloor> \<le> \<lfloor>y\<rfloor>" using xy by (rule floor_mono)
  show ?thesis
  proof (cases "\<lfloor>x\<rfloor> = \<lfloor>y\<rfloor>")
    case True
    then show ?thesis using xy unfolding round_even_def Let_def by auto
  next
    case False
    with fl have "\<lfloor>x\<rfloor> + 1 \<le> \<lfloor>y\<rfloor>" by simp
    moreover have "round_even x \<le> \<lfloor>x\<rfloor> + 1" using round_even_cases [of x] by auto
    moreover have "\<lfloor>y\<rfloor> \<le> round_even y" using round_even_cases [of y] by auto
    ultimately show ?thesis by linarith
  qed
qed

lemma round_even_down: "of_int n \<le> y \<Longrightarrow> y < of_int n + 1 / 2 \<Longrightarrow> round_even y = n"
proof -
  assume a: "of_int n \<le> y" "y < of_int n + 1 / 2"
  then have "\<lfloor>y\<rfloor> = n" by (simp add: floor_eq_iff)
  with a show ?thesis by (simp add: round_even_def)
qed

lemma round_even_up: "of_int n + 1 / 2 < y \<Longrightarrow> y < of_int n + 1 \<Longrightarrow> round_even y = n + 1"
proof -
  assume a: "of_int n + 1 / 2 < y" "y < of_int n + 1"
  then have "\<lfloor>y\<rfloor> = n" by (simp add: floor_eq_iff)
  with a show ?thesis by (simp add: round_even_def)
qed

lemma round_even_half: "round_even (1 / 2) = 0"
  by (simp add: round_even_def)

lemma pow2_pos: "0 < pow2 k"
  by (simp add: pow2_def)

lemma pow2_add: "pow2 (a + b) = pow2 a * pow2 b"
  by (simp add: pow2_def powr_add)

lemma pow2_le_iff: "pow2 a \<le> pow2 b \<longleftrightarrow> a \<le> b"
  by (simp add: pow2_def)

lemma pow2_less_iff: "pow2 a < pow2 b \<longleftrightarrow> a < b"
  by (simp add: pow2_def)

lemma pow2_nat: "0 \<le> k \<Longrightarrow> pow2 k = of_int (2 ^ nat k)"
  by (simp add: pow2_def powr_real_of_int)

lemma pow2_0: "pow2 0 = 1"
  by (simp add: pow2_def)

lemma ulp_pow2: "ulp x = pow2 (exponent x - 52)"
  by (simp add: ulp_def pow2_def)

lemma exponent_ge: "- 1022 \<le> exponent x"
  by (simp add: exponent_def)

lemma floor_log_le: "0 < x \<Longrightarrow> \<lfloor>log 2 x\<rfloor> \<le> e \<longleftrightarrow> x < pow2 (e + 1)"
proof -
  assume x: "0 < x"
  have "\<lfloor>log 2 x\<rfloor> \<le> e \<longleftrightarrow> log 2 x < of_int (e + 1)"
    by (simp add: floor_le_iff)
  also have "\<dots> \<longleftrightarrow> x < 2 powr of_int (e + 1)"
    using x by (simp add: log_less_iff)
  finally show ?thesis by (simp add: pow2_def)
qed

lemma le_floor_log: "0 < x \<Longrightarrow> e \<le> \<lfloor>log 2 x\<rfloor> \<longleftrightarrow> pow2 e \<le> x"
proof -
  assume x: "0 < x"
  have "e \<le> \<lfloor>log 2 x\<rfloor> \<longleftrightarrow> of_int e \<le> log 2 x"
    by (simp add: le_floor_iff)
  also have "\<dots> \<longleftrightarrow> 2 powr of_int e \<le> x"
    using x by (simp add: le_log_iff)
  finally show ?thesis by (simp add: pow2_def)
qed

lemma exponent_le: "0 < x \<Longrightarrow> x < pow2 (e + 1) \<Longrightarrow> - 1022 \<le> e \<Longrightarrow> exponent x \<le> e"
  by (simp add: exponent_def floor_log_le)

lemma exponent_upper: "0 < x \<Longrightarrow> x < pow2 (exponent x + 1)"
proof -
  assume x: "0 < x"
  have "\<lfloor>log 2 x\<rfloor> \<le> exponent x" by (simp add: exponent_def)
  then show ?thesis using x by (simp add: floor_log_le)
qed

lemma exponent_lower: "0 < x \<Longrightarrow> pow2 (- 1022) \<le> x \<Longrightarrow> pow2 (exponent x) \<le> x"
proof -
  assume x: "0 < x" and n: "pow2 (- 1022) \<le> x"
  then have "- 1022 \<le> \<lfloor>log 2 x\<rfloor>" using le_floor_log [of x "- 1022"] by blast
  then have "exponent x = \<lfloor>log 2 x\<rfloor>" by (simp add: exponent_def)
  then have "exponent x \<le> \<lfloor>log 2 x\<rfloor>" by simp
  then show ?thesis using x by (simp add: le_floor_log)
qed

lemma exponent_eq:
  "0 < x \<Longrightarrow> - 1022 \<le> e \<Longrightarrow> pow2 e \<le> x \<Longrightarrow> x < pow2 (e + 1) \<Longrightarrow> exponent x = e"
proof -
  assume x: "0 < x" and e: "- 1022 \<le> e" and lo: "pow2 e \<le> x" and hi: "x < pow2 (e + 1)"
  from x lo have "e \<le> \<lfloor>log 2 x\<rfloor>" by (simp add: le_floor_log)
  moreover from x hi have "\<lfloor>log 2 x\<rfloor> \<le> e" by (simp add: floor_log_le)
  ultimately show ?thesis using e by (simp add: exponent_def)
qed

lemma exponent_subnormal: "0 < x \<Longrightarrow> x < pow2 (- 1022) \<Longrightarrow> exponent x = - 1022"
proof -
  assume x: "0 < x" and hi: "x < pow2 (- 1022)"
  have "pow2 (- 1022) \<le> pow2 (- 1022 + 1)"
    by (simp add: pow2_le_iff)
  with hi have "x < pow2 (- 1022 + 1)" by linarith
  with x have "exponent x \<le> - 1022"
    by (intro exponent_le) simp_all
  with exponent_ge [of x] show ?thesis by simp
qed

lemma exponent_mono: "0 < x \<Longrightarrow> x \<le> y \<Longrightarrow> exponent x \<le> exponent y"
proof -
  assume x: "0 < x" and xy: "x \<le> y"
  then have "x < pow2 (exponent y + 1)"
    using exponent_upper [of y] by simp
  then show ?thesis
    using x exponent_ge [of y] by (intro exponent_le)
qed

lemma ulp_pos: "0 < ulp x"
  by (simp add: ulp_pow2 pow2_pos)

lemma pow2_split: "pow2 (e + 1) = of_int (2 ^ 53) * pow2 (e - 52)"
proof -
  have "e + 1 = 53 + (e - 52)" by simp
  then have "pow2 (e + 1) = pow2 53 * pow2 (e - 52)"
    by (simp only: pow2_add)
  then show ?thesis by (simp add: pow2_nat)
qed

lemma pow2_split_low: "pow2 e = of_int (2 ^ 52) * pow2 (e - 52)"
proof -
  have "e = 52 + (e - 52)" by simp
  then have "pow2 e = pow2 52 * pow2 (e - 52)"
    by (metis pow2_add)
  then show ?thesis by (simp add: pow2_nat)
qed

lemma scaled_upper: "0 < x \<Longrightarrow> x / ulp x < of_int (2 ^ 53)"
proof -
  assume x: "0 < x"
  have "x < of_int (2 ^ 53) * ulp x"
    using exponent_upper [OF x] by (simp only: pow2_split ulp_pow2)
  then show ?thesis
    using ulp_pos [of x] by (simp add: pos_divide_less_eq)
qed

lemma scaled_lower: "0 < x \<Longrightarrow> pow2 (- 1022) \<le> x \<Longrightarrow> of_int (2 ^ 52) \<le> x / ulp x"
proof -
  assume x: "0 < x" and n: "pow2 (- 1022) \<le> x"
  have "of_int (2 ^ 52) * ulp x \<le> x"
    using exponent_lower [OF x n] by (simp only: ulp_pow2 flip: pow2_split_low)
  then show ?thesis
    using ulp_pos [of x] by (simp add: pos_le_divide_eq)
qed

lemma round_pos_nonneg: "0 < x \<Longrightarrow> 0 \<le> round_pos x"
proof -
  assume x: "0 < x"
  have "of_int 0 \<le> x / ulp x" using x ulp_pos [of x] by simp
  then have "0 \<le> round_even (x / ulp x)" by (rule round_even_ge)
  then show ?thesis using ulp_pos [of x] by (simp add: round_pos_def)
qed

lemma round_pos_upper: "0 < x \<Longrightarrow> round_pos x \<le> pow2 (exponent x + 1)"
proof -
  assume x: "0 < x"
  have "round_even (x / ulp x) \<le> 2 ^ 53"
    using scaled_upper [OF x] by (intro round_even_le) simp
  then have "of_int (round_even (x / ulp x)) \<le> (of_int (2 ^ 53) :: real)"
    by (simp only: of_int_le_iff)
  then have "of_int (round_even (x / ulp x)) * ulp x \<le> of_int (2 ^ 53) * ulp x"
    using ulp_pos [of x] by (simp only: mult_le_cancel_right_pos)
  then show ?thesis
    by (simp only: round_pos_def pow2_split ulp_pow2)
qed

lemma round_pos_lower: "0 < x \<Longrightarrow> pow2 (- 1022) \<le> x \<Longrightarrow> pow2 (exponent x) \<le> round_pos x"
proof -
  assume x: "0 < x" and n: "pow2 (- 1022) \<le> x"
  have "2 ^ 52 \<le> round_even (x / ulp x)"
    using scaled_lower [OF x n] by (rule round_even_ge)
  then have "(of_int (2 ^ 52) :: real) \<le> of_int (round_even (x / ulp x))"
    by (simp only: of_int_le_iff)
  then have "of_int (2 ^ 52) * ulp x \<le> of_int (round_even (x / ulp x)) * ulp x"
    using ulp_pos [of x] by (simp only: mult_le_cancel_right_pos)
  then show ?thesis
    by (simp only: round_pos_def ulp_pow2 flip: pow2_split_low)
qed

lemma round_pos_mono: "0 < x \<Longrightarrow> x \<le> y \<Longrightarrow> round_pos x \<le> round_pos y"
proof -
  assume x: "0 < x" and xy: "x \<le> y"
  then have y: "0 < y" by simp
  show ?thesis
  proof (cases "exponent x = exponent y")
    case True
    then have u: "ulp x = ulp y" by (simp add: ulp_def)
    have "x / ulp y \<le> y / ulp y"
      using xy ulp_pos [of y] by (simp add: divide_right_mono)
    then have "round_even (x / ulp y) \<le> round_even (y / ulp y)"
      by (rule round_even_mono)
    then have "(of_int (round_even (x / ulp y)) :: real) \<le> of_int (round_even (y / ulp y))"
      by (simp only: of_int_le_iff)
    then show ?thesis
      using ulp_pos [of y] by (simp add: round_pos_def u)
  next
    case False
    with exponent_mono [OF x xy] have less: "exponent x + 1 \<le> exponent y" by simp
    with exponent_ge [of x] have "- 1022 < exponent y" by simp
    then have "pow2 (- 1022) \<le> y"
      using exponent_subnormal [OF y] by (cases "y < pow2 (- 1022)") simp_all
    from round_pos_lower [OF y this] have "pow2 (exponent y) \<le> round_pos y" .
    moreover have "pow2 (exponent x + 1) \<le> pow2 (exponent y)"
      using less by (simp only: pow2_le_iff)
    moreover note round_pos_upper [OF x]
    ultimately show ?thesis by linarith
  qed
qed

text \<open>A positive multiple of a power of two that is not finer than the grid at its exponent is a double.\<close>

lemma round_pos_exact:
  assumes "0 < v" and "v = of_int m * pow2 k" and "exponent v - 52 \<le> k"
  shows "round_pos v = v"
proof -
  define j where "j = k - (exponent v - 52)"
  define u where "u = ulp v"
  have u: "0 < u" by (simp add: u_def ulp_pos)
  have j: "0 \<le> j" using assms(3) by (simp add: j_def)
  have "k = j + (exponent v - 52)" by (simp add: j_def)
  then have "pow2 k = pow2 j * u"
    by (simp only: u_def ulp_pow2 pow2_add)
  also have "pow2 j = of_int (2 ^ nat j)"
    using j by (rule pow2_nat)
  finally have "v = of_int (m * 2 ^ nat j) * u"
    using assms(2) by simp
  then have scaled: "v / u = of_int (m * 2 ^ nat j)"
    using u by simp
  have "round_pos v = of_int (round_even (v / u)) * u"
    by (simp only: round_pos_def u_def)
  also have "\<dots> = of_int (m * 2 ^ nat j) * u"
    by (simp only: scaled round_even_of_int)
  also have "\<dots> = v"
    using \<open>v = of_int (m * 2 ^ nat j) * u\<close> by simp
  finally show ?thesis .
qed

lemma rd_0: "rd 0 = 0"
  by (simp add: rd_def)

lemma rd_pos_eq: "0 < x \<Longrightarrow> rd x = round_pos x"
  by (simp add: rd_def)

lemma rd_minus: "rd (- x) = - rd x"
  by (simp add: rd_def)

lemma rd_nonneg: "0 \<le> x \<Longrightarrow> 0 \<le> rd x"
  by (cases "x = 0") (simp_all add: rd_def round_pos_nonneg)

lemma rd_nonpos: "x \<le> 0 \<Longrightarrow> rd x \<le> 0"
  using rd_nonneg [of "- x"] by (simp add: rd_minus)

lemma rd_mono: "x \<le> y \<Longrightarrow> rd x \<le> rd y"
proof -
  assume xy: "x \<le> y"
  consider "0 < x" | "x \<le> 0" "0 \<le> y" | "y < 0" by linarith
  then show ?thesis
  proof cases
    case 1
    with xy have "0 < y" by simp
    with 1 xy show ?thesis by (simp add: rd_pos_eq round_pos_mono)
  next
    case 2
    then show ?thesis using rd_nonpos [of x] rd_nonneg [of y] by linarith
  next
    case 3
    with xy have "x < 0" by simp
    have "round_pos (- y) \<le> round_pos (- x)"
      using 3 xy by (intro round_pos_mono) simp_all
    with 3 \<open>x < 0\<close> show ?thesis by (simp add: rd_def)
  qed
qed

lemma round_pos_idem: "0 < x \<Longrightarrow> rd (round_pos x) = round_pos x"
proof -
  assume x: "0 < x"
  define e where "e = exponent x"
  define m where "m = round_even (x / ulp x)"
  define v where "v = round_pos x"
  have v: "v = of_int m * pow2 (e - 52)"
    by (simp add: v_def m_def e_def round_pos_def ulp_pow2)
  have e: "- 1022 \<le> e" by (simp add: e_def exponent_ge)
  have upper: "v \<le> pow2 (e + 1)"
    unfolding v_def e_def using x by (rule round_pos_upper)
  have nonneg: "0 \<le> v"
    unfolding v_def using x by (rule round_pos_nonneg)
  show "rd (round_pos x) = round_pos x"
  proof (cases "v = 0")
    case True
    then show ?thesis by (simp add: v_def rd_0)
  next
    case False
    with nonneg have pos: "0 < v" by simp
    have "round_pos v = v"
    proof (cases "v = pow2 (e + 1)")
      case True
      have "pow2 (e + 1) < pow2 (e + 1 + 1)"
        by (simp add: pow2_less_iff)
      then have "exponent v = e + 1"
        using pos e True by (intro exponent_eq) simp_all
      then show ?thesis
        using pos True by (intro round_pos_exact [where m = 1 and k = "e + 1"]) simp_all
    next
      case False
      with upper have "v < pow2 (e + 1)" by simp
      then have "exponent v \<le> e"
        using pos e by (intro exponent_le)
      then show ?thesis
        using pos v by (intro round_pos_exact [where m = m and k = "e - 52"]) simp_all
    qed
    with pos show ?thesis by (simp add: rd_pos_eq v_def)
  qed
qed

lemma rd_idem: "rd (rd x) = rd x"
proof -
  consider "x = 0" | "0 < x" | "x < 0" by linarith
  then show ?thesis
  proof cases
    case 1
    then show ?thesis by (simp add: rd_0)
  next
    case 2
    then show ?thesis by (simp add: rd_pos_eq round_pos_idem)
  next
    case 3
    then have "rd x = - round_pos (- x)" by (simp add: rd_def)
    moreover have "rd (round_pos (- x)) = round_pos (- x)"
      using 3 by (intro round_pos_idem) simp
    ultimately show ?thesis by (simp add: rd_minus)
  qed
qed

lemma rd_exact:
  assumes "0 < v" and "v = of_int m * pow2 k" and "exponent v - 52 \<le> k"
  shows "rd v = v"
  using assms by (simp add: rd_pos_eq round_pos_exact [where m = m and k = k])

lemma rd_of_nat_exact:
  assumes "0 < n" and "n < 2 ^ 53"
  shows "rd (of_int n) = of_int n"
proof -
  have "(of_int n :: real) < of_int (2 ^ 53)"
    using assms(2) by (simp only: of_int_less_iff)
  also have "\<dots> = pow2 (52 + 1)"
    by (simp add: pow2_nat)
  finally have "exponent (of_int n) \<le> 52"
    using assms(1) by (intro exponent_le) simp_all
  then show ?thesis
    using assms(1) by (intro rd_exact [where m = n and k = 0]) (simp_all add: pow2_0)
qed

lemma rd_of_int_exact: "\<bar>n\<bar> < 2 ^ 53 \<Longrightarrow> rd (of_int n) = of_int n"
proof -
  assume n: "\<bar>n\<bar> < 2 ^ 53"
  consider "n = 0" | "0 < n" | "n < 0" by linarith
  then show ?thesis
  proof cases
    case 1
    then show ?thesis by (simp add: rd_0)
  next
    case 2
    with n show ?thesis by (intro rd_of_nat_exact) simp_all
  next
    case 3
    with n have "rd (of_int (- n)) = of_int (- n)" by (intro rd_of_nat_exact) simp_all
    then show ?thesis by (simp add: rd_minus)
  qed
qed

lemma rd_1: "rd 1 = 1"
  using rd_of_int_exact [of 1] by simp

lemma on_grid_0: "on_grid 0"
  unfolding on_grid_def by (rule exI [of _ 0]) simp

lemma on_grid_minus: "on_grid x \<Longrightarrow> on_grid (- x)"
  unfolding on_grid_def
proof -
  assume "\<exists>k::int. x = of_int k * pow2 (- 1074)"
  then obtain k :: int where "x = of_int k * pow2 (- 1074)" ..
  then have "- x = of_int (- k) * pow2 (- 1074)" by simp
  then show "\<exists>k::int. - x = of_int k * pow2 (- 1074)" ..
qed

lemma on_grid_round_pos: "on_grid (round_pos x)"
proof -
  define j where "j = exponent x - 52 + 1074"
  have j: "0 \<le> j" using exponent_ge [of x] by (simp add: j_def)
  have "exponent x - 52 = j + (- 1074)" by (simp add: j_def)
  then have "ulp x = pow2 j * pow2 (- 1074)"
    by (simp only: ulp_pow2 pow2_add)
  also have "pow2 j = of_int (2 ^ nat j)" using j by (rule pow2_nat)
  finally have "round_pos x = of_int (round_even (x / ulp x) * 2 ^ nat j) * pow2 (- 1074)"
    by (simp add: round_pos_def)
  then show ?thesis unfolding on_grid_def ..
qed

lemma on_grid_rd: "on_grid (rd x)"
  by (simp add: rd_def on_grid_0 on_grid_round_pos on_grid_minus)

lemma rd_positive: "pow2 (- 1074) \<le> x \<Longrightarrow> 0 < rd x"
proof -
  assume lo: "pow2 (- 1074) \<le> x"
  with pow2_pos [of "- 1074"] have x: "0 < x" by linarith
  have "pow2 (exponent x - 52) \<le> x"
  proof (cases "x < pow2 (- 1022)")
    case True
    with x have "exponent x = - 1022" by (rule exponent_subnormal)
    with lo show ?thesis by simp
  next
    case False
    then have "pow2 (exponent x) \<le> x" using x by (intro exponent_lower) simp_all
    moreover have "pow2 (exponent x - 52) \<le> pow2 (exponent x)"
      by (simp add: pow2_le_iff)
    ultimately show ?thesis by linarith
  qed
  then have "of_int 1 \<le> x / ulp x"
    using ulp_pos [of x] by (simp add: ulp_pow2 pos_le_divide_eq)
  then have "1 \<le> round_even (x / ulp x)" by (rule round_even_ge)
  then have "0 < (of_int (round_even (x / ulp x)) :: real)" by simp
  then have "0 < round_pos x"
    using ulp_pos [of x] by (simp add: round_pos_def)
  with x show ?thesis by (simp add: rd_pos_eq)
qed

lemma grid_gap:
  assumes "on_grid a" and "on_grid b" and "a < b"
  shows "pow2 (- 1074) \<le> b - a"
proof -
  from assms(1,2) obtain k l :: int where
    a: "a = of_int k * pow2 (- 1074)" and b: "b = of_int l * pow2 (- 1074)"
    unfolding on_grid_def by blast
  from assms(3) have "of_int k * pow2 (- 1074) < of_int l * pow2 (- 1074)"
    by (simp only: a b)
  then have "(of_int k :: real) < of_int l"
    using pow2_pos [of "- 1074"] by (simp only: mult_less_cancel_right_pos)
  then have "k + 1 \<le> l" by simp
  then have "(of_int (k + 1) :: real) \<le> of_int l" by (simp only: of_int_le_iff)
  then have "of_int (k + 1) * pow2 (- 1074) \<le> of_int l * pow2 (- 1074)"
    using pow2_pos [of "- 1074"] by (simp only: mult_le_cancel_right_pos)
  then show ?thesis by (simp add: a b algebra_simps)
qed

text \<open>The difference of two grid points rounds to a number of the same sign.\<close>

lemma rd_diff_sign:
  assumes "on_grid a" and "on_grid b"
  shows "rd (a - b) \<le> 0 \<longleftrightarrow> a \<le> b"
proof (cases "a \<le> b")
  case True
  then show ?thesis using rd_nonpos [of "a - b"] by simp
next
  case False
  then have "b < a" by simp
  from grid_gap [OF assms(2,1) this] have "0 < rd (a - b)" by (rule rd_positive)
  with False show ?thesis by simp
qed

lemma rd_underflow: "0 \<le> x \<Longrightarrow> x \<le> pow2 (- 1075) \<Longrightarrow> rd x = 0"
proof (cases "x = 0")
  case True
  then show ?thesis by (simp add: rd_0)
next
  case False
  assume "0 \<le> x" and hi: "x \<le> pow2 (- 1075)"
  with False have x: "0 < x" by simp
  have "pow2 (- 1075) < pow2 (- 1022)" by (simp add: pow2_less_iff)
  with hi have "x < pow2 (- 1022)" by linarith
  with x have e: "exponent x = - 1022" by (rule exponent_subnormal)
  have "pow2 (- 1074) = pow2 1 * pow2 (- 1075)" by (simp flip: pow2_add)
  then have u: "ulp x = 2 * pow2 (- 1075)" by (simp add: ulp_pow2 e pow2_nat)
  define y where "y = x / ulp x"
  have "y \<le> 1 / 2"
    using hi pow2_pos [of "- 1075"] by (simp add: y_def u pos_divide_le_eq)
  moreover have "0 < y" using x ulp_pos [of x] by (simp add: y_def)
  ultimately have "round_even y = 0"
  proof (cases "y = 1 / 2")
    case True
    then show ?thesis by (simp only: round_even_half)
  next
    case False
    with \<open>y \<le> 1 / 2\<close> \<open>0 < y\<close> show ?thesis
      by (intro round_even_down) simp_all
  qed
  with x show ?thesis by (simp add: rd_pos_eq round_pos_def y_def)
qed

section \<open>The two maps after the loops\<close>

lemma on_grid_of_int: "on_grid (of_int n)"
proof -
  have "pow2 0 = pow2 1074 * pow2 (- 1074)"
    by (simp flip: pow2_add)
  then have "(of_int n :: real) = of_int (n * 2 ^ 1074) * pow2 (- 1074)"
    by (simp add: pow2_0 pow2_nat)
  then show ?thesis unfolding on_grid_def ..
qed

lemma or_zero_Some: "or_zero (Some x) = x"
  by (simp add: or_zero_def)

lemma counts_fold_init:
  "counts (fold init_member p st) m = (if m \<in> set p then Some 0 else counts st m)"
  by (induction p arbitrary: st) (auto simp: init_member_def)

lemma lastDates_fold_init:
  "lastDates (fold init_member p st) m = (if m \<in> set p then Some 0 else lastDates st m)"
  by (induction p arbitrary: st) (auto simp: init_member_def)

lemma counts_init: "counts (init p) m = (if m \<in> set p then Some 0 else None)"
  by (simp add: init_def counts_fold_init)

lemma lastDates_init: "lastDates (init p) m = (if m \<in> set p then Some 0 else None)"
  by (simp add: init_def lastDates_fold_init)

lemma accumulate_Nil: "accumulate now p [] = init p"
  by (simp add: accumulate_def)

lemma accumulate_snoc:
  "accumulate now p (h @ [r]) = record_ride now r (accumulate now p h)"
  by (simp add: accumulate_def)

text \<open>The weight the loop adds for a ride, and the update it makes.\<close>

lemma loop_weight:
  "fmul 1 (Math_pow DECAY
     (max 0 (fdiv (fsub (of_int now) (of_int (date r))) (1000 * 60 * 60 * 24 * 30)))) =
   ride_weight now r"
  by (simp add: fmul_def Math_pow_def DECAY_def fdiv_def fsub_def ride_weight_def rd_idem)

lemma record_ride_present:
  assumes "counts st (driverId r) = Some c" and "lastDates st (driverId r) = Some l"
  shows "record_ride now r st =
    \<lparr>counts = (counts st)(driverId r \<mapsto> rd (c + ride_weight now r)),
     lastDates = (lastDates st)(driverId r \<mapsto> max l (date r))\<rparr>"
  using assms loop_weight [of now r]
  by (simp add: record_ride_def Let_def or_zero_Some fadd_def)

lemma record_ride_absent: "counts st (driverId r) = None \<Longrightarrow> record_ride now r st = st"
  by (simp add: record_ride_def Let_def)

lemma accumulate_closed:
  "counts (accumulate now p h) m = (if m \<in> set p then Some (weighted_count now h m) else None) \<and>
   lastDates (accumulate now p h) m = (if m \<in> set p then Some (last_drive h m) else None)"
proof (induction h arbitrary: m rule: rev_induct)
  case Nil
  show ?case
    by (simp add: accumulate_Nil counts_init lastDates_init weighted_count_def last_drive_def
        drives_of_def)
next
  case (snoc r h)
  show ?case
  proof (cases "driverId r \<in> set p")
    case True
    then have "accumulate now p (h @ [r]) =
        \<lparr>counts = (counts (accumulate now p h))(driverId r \<mapsto>
           rd (weighted_count now h (driverId r) + ride_weight now r)),
         lastDates = (lastDates (accumulate now p h))(driverId r \<mapsto>
           max (last_drive h (driverId r)) (date r))\<rparr>"
      by (simp add: accumulate_snoc record_ride_present snoc.IH)
    with True show ?thesis
      by (simp add: snoc.IH weighted_count_def last_drive_def drives_of_def max.commute)
  next
    case False
    then have "accumulate now p (h @ [r]) = accumulate now p h"
      by (simp add: accumulate_snoc record_ride_absent snoc.IH)
    with False show ?thesis
      by (auto simp: snoc.IH weighted_count_def last_drive_def drives_of_def)
  qed
qed

lemma nullish_counts:
  "m \<in> set p \<Longrightarrow> nullish_zero (counts (accumulate now p h) m) = weighted_count now h m"
  by (simp add: accumulate_closed nullish_zero_def)

lemma nullish_lastDates:
  "m \<in> set p \<Longrightarrow> nullish_zero (lastDates (accumulate now p h) m) = last_drive h m"
  by (simp add: accumulate_closed nullish_zero_def)



lemma on_grid_fold_sum:
  "on_grid c \<Longrightarrow> on_grid (fold (\<lambda>r c. rd (c + w r)) rs c)"
  by (induction rs arbitrary: c) (simp_all add: on_grid_rd)

lemma on_grid_weighted_count: "on_grid (weighted_count now h m)"
  by (simp add: weighted_count_def on_grid_fold_sum on_grid_0)

lemma grid_counts_accumulate: "grid_counts (accumulate now p h)"
  unfolding grid_counts_def
proof
  fix m
  show "on_grid (nullish_zero (counts (accumulate now p h) m))"
    by (cases "m \<in> set p")
      (simp_all add: accumulate_closed nullish_zero_def on_grid_weighted_count on_grid_0)
qed

section \<open>The comparator and the sort\<close>

text \<open>
  On binary64 counts the comparator is not positive exactly when its first argument is
  not behind the second in the order of the ranking: the rounded difference of two doubles
  has the sign of the exact difference.
\<close>

lemma comparator_le_iff:
  assumes "grid_counts st"
  shows "comparator st a b \<le> 0 \<longleftrightarrow> ranks_le st a b"
proof -
  have ca: "on_grid (nullish_zero (counts st a))" and cb: "on_grid (nullish_zero (counts st b))"
    using assms by (simp_all add: grid_counts_def)
  have "rd (nullish_zero (counts st a) - nullish_zero (counts st b)) \<le> 0 \<longleftrightarrow>
      nullish_zero (counts st a) \<le> nullish_zero (counts st b)"
    using ca cb by (rule rd_diff_sign)
  moreover have "rd (of_int (nullish_zero (lastDates st a)) - of_int (nullish_zero (lastDates st b))) \<le> 0 \<longleftrightarrow>
      nullish_zero (lastDates st a) \<le> nullish_zero (lastDates st b)"
    using rd_diff_sign [OF on_grid_of_int on_grid_of_int,
        of "nullish_zero (lastDates st a)" "nullish_zero (lastDates st b)"]
    by simp
  ultimately show ?thesis
    by (auto simp: comparator_def ranks_le_def Let_def fsub_def)
qed

lemma ranks_le_total: "ranks_le st a b \<or> ranks_le st b a"
  by (auto simp: ranks_le_def)

lemma ranks_le_trans: "ranks_le st a b \<Longrightarrow> ranks_le st b c \<Longrightarrow> ranks_le st a c"
  by (auto simp: ranks_le_def)

lemma rank_key_eq: "rank_key st a = rank_key st b \<Longrightarrow> ranks_le st a b"
  by (simp add: rank_key_def ranks_le_def)

lemma mset_insert_sorted: "mset (insert_sorted cmp x ys) = add_mset x (mset ys)"
  by (induction ys) simp_all

lemma mset_js_sort: "mset (js_sort cmp xs) = mset xs"
  by (induction xs) (simp_all add: mset_insert_sorted)


lemma set_sorted_present: "set (sorted_present now p h) = set p"
  unfolding sorted_present_def by (metis mset_js_sort set_mset_mset)





text \<open>
  The head of the sorted list is the element of least index among those that no element
  precedes strictly.
\<close>

lemma js_sort_first:
  assumes "grid_counts st" and "xs \<noteq> []"
  shows "\<exists>i<length xs. \<exists>zs. js_sort (comparator st) xs = xs ! i # zs \<and>
           (\<forall>j<length xs. ranks_le st (xs ! i) (xs ! j)) \<and>
           (\<forall>j<i. \<not> ranks_le st (xs ! j) (xs ! i))"
  using assms(2)
proof (induction xs)
  case Nil
  then show ?case by simp
next
  case (Cons x xs)
  show ?case
  proof (cases xs)
    case Nil
    then show ?thesis
      using ranks_le_total [of st x x] by simp
  next
    case (Cons y ys)
    then have "xs \<noteq> []" by simp
    from Cons.IH [OF this] obtain i zs where
      i: "i < length xs" and
      srt: "js_sort (comparator st) xs = xs ! i # zs" and
      least: "\<forall>j<length xs. ranks_le st (xs ! i) (xs ! j)" and
      first: "\<forall>j<i. \<not> ranks_le st (xs ! j) (xs ! i)"
      by blast
    show ?thesis
    proof (cases "ranks_le st x (xs ! i)")
      case True
      have "ranks_le st x ((x # xs) ! j)" if "j < length (x # xs)" for j
      proof (cases j)
        case 0
        then show ?thesis using ranks_le_total [of st x x] by simp
      next
        case (Suc j')
        with that least True show ?thesis
          by (auto intro: ranks_le_trans)
      qed
      moreover have "js_sort (comparator st) (x # xs) = x # xs ! i # zs"
        using True srt by (simp add: comparator_le_iff [OF assms(1)])
      ultimately show ?thesis
        by (intro exI [of _ 0]) auto
    next
      case False
      then have swapped: "ranks_le st (xs ! i) x"
        using ranks_le_total by blast
      have "ranks_le st ((x # xs) ! Suc i) ((x # xs) ! j)" if "j < length (x # xs)" for j
        using that least swapped by (cases j) auto
      moreover have "\<not> ranks_le st ((x # xs) ! j) ((x # xs) ! Suc i)" if "j < Suc i" for j
        using that first False by (cases j) auto
      moreover have "\<exists>zs'. js_sort (comparator st) (x # xs) = (x # xs) ! Suc i # zs'"
        using False srt by (simp add: comparator_le_iff [OF assms(1)])
      ultimately show ?thesis
        using i by (intro exI [of _ "Suc i"]) auto
    qed
  qed
qed

lemma first_ranked:
  assumes "p \<noteq> []"
  shows "\<exists>i<length p. first_elem (sorted_present now p h) = Str (p ! i) \<and>
           (\<forall>j<length p. ranks_le (accumulate now p h) (p ! i) (p ! j)) \<and>
           (\<forall>j<i. \<not> ranks_le (accumulate now p h) (p ! j) (p ! i))"
proof -
  from js_sort_first [OF grid_counts_accumulate assms, of now p h] obtain i zs where
    i: "i < length p" and
    srt: "sorted_present now p h = p ! i # zs" and
    least: "\<forall>j<length p. ranks_le (accumulate now p h) (p ! i) (p ! j)" and
    first: "\<forall>j<i. \<not> ranks_le (accumulate now p h) (p ! j) (p ! i)"
    unfolding sorted_present_def by blast
  have "first_elem (sorted_present now p h) = Str (p ! i)"
    by (simp add: srt first_elem_def)
  with i least first show ?thesis by blast
qed

lemma nextDriver_nonempty:
  "p \<noteq> [] \<Longrightarrow> nextDriver clock p h nowISO = first_elem (sorted_present (now_of clock nowISO) p h)"
  by (simp add: nextDriver_def)




text \<open>The same head, as the first member of the list that nobody precedes strictly.\<close>

lemma first_ranked_find:
  assumes "p \<noteq> []"
  shows "find (\<lambda>x. \<forall>y\<in>set p. ranks_le (accumulate now p h) x y) p = Some m \<longleftrightarrow>
         first_elem (sorted_present now p h) = Str m"
proof -
  let ?P = "\<lambda>x. \<forall>y\<in>set p. ranks_le (accumulate now p h) x y"
  from first_ranked [OF assms, of now h] obtain i where
    i: "i < length p" and
    res: "first_elem (sorted_present now p h) = Str (p ! i)" and
    least: "\<forall>j<length p. ranks_le (accumulate now p h) (p ! i) (p ! j)" and
    first: "\<forall>j<i. \<not> ranks_le (accumulate now p h) (p ! j) (p ! i)"
    by blast
  have "?P (p ! i)"
    using least by (auto simp: in_set_conv_nth)
  moreover have "\<not> ?P (p ! j)" if "j < i" for j
    using that first i by (auto intro!: bexI [of _ "p ! i"])
  ultimately have "find ?P p = Some (p ! i)"
    using i by (auto simp: find_Some_iff)
  with res show ?thesis by auto
qed

section \<open>Equal tallies\<close>

lemma tally_eqI: "counts s = counts t \<Longrightarrow> lastDates s = lastDates t \<Longrightarrow> s = t"
  for s t :: tally
  by simp

lemma accumulate_eqI:
  assumes "set p = set q"
    and "\<And>m. m \<in> set p \<Longrightarrow> weighted_count now h m = weighted_count now h' m"
    and "\<And>m. m \<in> set p \<Longrightarrow> last_drive h m = last_drive h' m"
  shows "accumulate now p h = accumulate now q h'"
proof (rule tally_eqI)
  show "counts (accumulate now p h) = counts (accumulate now q h')"
    using assms by (auto simp: accumulate_closed fun_eq_iff)
  show "lastDates (accumulate now p h) = lastDates (accumulate now q h')"
    using assms by (auto simp: accumulate_closed fun_eq_iff)
qed

text \<open>The two maps read a member's own rides only, in the order of the history.\<close>

lemma accumulate_same_drives:
  assumes "\<And>m. m \<in> set p \<Longrightarrow> drives_of m h = drives_of m h'"
  shows "accumulate now p h = accumulate now p h'"
  by (rule accumulate_eqI) (simp_all add: assms weighted_count_def last_drive_def)

lemma drives_of_skip:
  "driverId r \<noteq> m \<Longrightarrow> drives_of m (h1 @ r # h2) = drives_of m (h1 @ h2)"
  by (simp add: drives_of_def)

lemma set_keep_first: "set (keep_first xs) = set xs"
  by (induction xs) auto

lemma distinct_keep_first: "distinct (keep_first xs)"
  by (induction xs) (auto simp: set_keep_first)

lemma find_filter_neq: "\<not> P x \<Longrightarrow> find P (filter (\<lambda>y. y \<noteq> x) ys) = find P ys"
  by (induction ys) auto

lemma find_keep_first: "find P (keep_first xs) = find P xs"
  by (induction xs) (auto simp: find_filter_neq)

lemma fold_max_mset: "mset ds = mset ds' \<Longrightarrow> fold max ds (a::int) = fold max ds' a"
  by (rule fun_cong [OF fold_multiset_equiv]) (auto simp: fun_eq_iff)

lemma last_drive_permute: "mset h = mset h' \<Longrightarrow> last_drive h m = last_drive h' m"
proof -
  assume "mset h = mset h'"
  then have "mset (drives_of m h) = mset (drives_of m h')"
    by (simp add: drives_of_def)
  then have "mset (map date (drives_of m h)) = mset (map date (drives_of m h'))"
    by simp
  then show ?thesis
    unfolding last_drive_def by (rule fold_max_mset)
qed

lemma nextDriver_no_history: "nextDriver clock (m # ms) [] nowISO = Str m"
proof -
  let ?now = "now_of clock nowISO"
  let ?st = "accumulate ?now (m # ms) []"
  from first_ranked [of "m # ms" ?now "[]"] obtain i where
    i: "i < length (m # ms)" and
    res: "first_elem (sorted_present ?now (m # ms) []) = Str ((m # ms) ! i)" and
    first: "\<forall>j<i. \<not> ranks_le ?st ((m # ms) ! j) ((m # ms) ! i)"
    by blast
  have "ranks_le ?st a b" for a b
    by (simp add: ranks_le_def accumulate_Nil counts_init lastDates_init nullish_zero_def)
  with first have "i = 0"
    by (cases i) auto
  with res show ?thesis
    by (simp add: nextDriver_nonempty)
qed

text \<open>With two present members the comparator is called once.\<close>

lemma nextDriver_pair:
  "nextDriver clock [a, b] h nowISO =
     (if ranks_le (accumulate (now_of clock nowISO) [a, b] h) a b then Str a else Str b)"
  by (simp add: nextDriver_def sorted_present_def first_elem_def
      comparator_le_iff [OF grid_counts_accumulate])

section \<open>Concrete binary64 values\<close>

lemma pow2_numeral: "pow2 (numeral n) = 2 ^ numeral n"
  by (simp add: pow2_def)

lemma pow2_neg_numeral: "pow2 (- numeral n) = 1 / 2 ^ numeral n"
  by (simp add: pow2_def powr_neg_numeral)

lemma rd_exactI:
  assumes "pow2 e \<le> v" and "v < pow2 (e + 1)" and "- 1022 \<le> e"
    and "v = of_int m * pow2 k" and "e - 52 \<le> k"
  shows "rd v = v"
proof -
  have pos: "0 < v" using assms(1) pow2_pos [of e] by linarith
  then have "exponent v = e" using assms(1,2,3) by (intro exponent_eq)
  with pos assms(4,5) show ?thesis by (intro rd_exact [where m = m and k = k]) simp_all
qed


text \<open>Next to 1 the doubles are \<open>pow2 (- 52)\<close> apart.\<close>

lemma rd_near_one_absorbs:
  assumes "0 \<le> u" and "u < pow2 (- 53)"
  shows "rd (1 + u) = 1"
proof -
  let ?x = "1 + u"
  have x: "0 < ?x" using assms(1) by simp
  have "pow2 (- 53) < 1" by (simp add: pow2_neg_numeral)
  with assms have "pow2 0 \<le> ?x" and "?x < pow2 (0 + 1)"
    by (simp_all add: pow2_0 pow2_numeral pow2_def)
  with x have e: "exponent ?x = 0" by (intro exponent_eq) simp_all
  then have u: "ulp ?x = pow2 (- 52)" by (simp add: ulp_pow2)
  have scaled: "?x / ulp ?x = 2 ^ 52 + u * 2 ^ 52"
    by (simp add: u pow2_neg_numeral algebra_simps)
  have "u * 2 ^ 52 < 1 / 2"
    using assms(2) by (simp add: pow2_neg_numeral)
  moreover have "0 \<le> u * 2 ^ 52" using assms(1) by simp
  ultimately have "round_even (?x / ulp ?x) = 2 ^ 52"
    unfolding scaled by (intro round_even_down) simp_all
  then show ?thesis
    using x by (simp add: rd_pos_eq round_pos_def u pow2_neg_numeral)
qed

lemma rd_near_one_rounds_up:
  assumes "pow2 (- 53) < u" and "u < pow2 (- 52)"
  shows "rd (1 + u) = 1 + pow2 (- 52)"
proof -
  let ?x = "1 + u"
  have upos: "0 < u" using assms(1) pow2_pos [of "- 53"] by linarith
  then have x: "0 < ?x" by simp
  have "pow2 (- 52) < 1" by (simp add: pow2_neg_numeral)
  with assms upos have "pow2 0 \<le> ?x" and "?x < pow2 (0 + 1)"
    by (simp_all add: pow2_0 pow2_def)
  with x have e: "exponent ?x = 0" by (intro exponent_eq) simp_all
  then have u: "ulp ?x = pow2 (- 52)" by (simp add: ulp_pow2)
  have scaled: "?x / ulp ?x = 2 ^ 52 + u * 2 ^ 52"
    by (simp add: u pow2_neg_numeral algebra_simps)
  have "1 / 2 < u * 2 ^ 52"
    using assms(1) by (simp add: pow2_neg_numeral)
  moreover have "u * 2 ^ 52 < 1" using assms(2) by (simp add: pow2_neg_numeral)
  ultimately have "round_even (?x / ulp ?x) = 2 ^ 52 + 1"
    unfolding scaled by (intro round_even_up) simp_all
  then show ?thesis
    using x by (simp add: rd_pos_eq round_pos_def u pow2_neg_numeral algebra_simps)
qed

text \<open>The value of the literal \<^verbatim>\<open>0.92\<close>.\<close>

lemma DECAY_value: "DECAY = 8286623314361713 / 2 ^ 53"
proof -
  define x :: real where "x = 0.92"
  have x: "0 < x" by (simp add: x_def)
  have "exponent x = - 1"
    by (rule exponent_eq) (simp_all add: x_def pow2_neg_numeral pow2_0 pow2_def)
  then have u: "ulp x = pow2 (- 53)" by (simp add: ulp_pow2)
  have "round_even (x / pow2 (- 53)) = 8286623314361712 + 1"
    by (rule round_even_up) (simp_all add: x_def pow2_neg_numeral)
  then have "round_pos x = 8286623314361713 * pow2 (- 53)"
    by (simp add: round_pos_def u)
  then have "rd x = 8286623314361713 / 2 ^ 53"
    using x by (simp add: rd_pos_eq pow2_neg_numeral)
  then show ?thesis by (simp only: DECAY_def x_def)
qed

lemma DECAY_bounds: "0 < DECAY" "DECAY < 1" "DECAY \<le> 15 / 16"
  by (simp_all add: DECAY_value)

section \<open>Weights\<close>

lemma ride_weight_DECAY:
  "ride_weight now r =
     rd (DECAY powr max 0 (rd (rd (of_int now - of_int (date r)) / 2592000000)))"
  by (simp add: ride_weight_def DECAY_def)

lemma ride_weight_at_or_after: "now \<le> date r \<Longrightarrow> ride_weight now r = 1"
proof -
  assume "now \<le> date r"
  then have "(of_int now :: real) - of_int (date r) \<le> 0" by simp
  then have "rd (of_int now - of_int (date r)) \<le> 0" by (rule rd_nonpos)
  then have "rd (of_int now - of_int (date r)) / 2592000000 \<le> 0"
    by (simp add: divide_le_0_iff)
  then have "rd (rd (of_int now - of_int (date r)) / 2592000000) \<le> 0" by (rule rd_nonpos)
  then have "max 0 (rd (rd (of_int now - of_int (date r)) / 2592000000)) = 0"
    by (simp add: max_def)
  then show ?thesis
    using DECAY_bounds(1) by (simp add: ride_weight_DECAY rd_1)
qed

lemma months_exact:
  assumes "0 < k" and "k * 2592000000 < 2 ^ 53" and "date r = now - 2592000000 * k"
  shows "max 0 (rd (rd (of_int now - of_int (date r)) / 2592000000)) = of_int k"
proof -
  have "(of_int now :: real) - of_int (date r) = of_int (2592000000 * k)"
    by (simp add: assms(3))
  moreover have "rd (of_int (2592000000 * k)) = of_int (2592000000 * k)"
    using assms(1,2) by (intro rd_of_int_exact) (simp add: mult.commute)
  ultimately have "rd (of_int now - of_int (date r)) / 2592000000 = of_int k"
    by simp
  moreover have "rd (of_int k) = of_int k"
    using assms(1,2) by (intro rd_of_int_exact) simp
  ultimately show ?thesis
    using assms(1) by simp
qed

lemma ride_weight_months:
  assumes "0 < k" and "k * 2592000000 < 2 ^ 53" and "date r = now - 2592000000 * k"
  shows "ride_weight now r = rd (DECAY ^ nat k)"
  using assms(1) DECAY_bounds(1)
  by (simp add: ride_weight_DECAY months_exact [OF assms] powr_real_of_int)

lemma ride_weight_mono:
  assumes "date ra \<le> date rb"
  shows "ride_weight now ra \<le> ride_weight now rb"
proof -
  let ?m = "\<lambda>r. max 0 (rd (rd (of_int now - of_int (date r)) / 2592000000))"
  have "(of_int now :: real) - of_int (date rb) \<le> of_int now - of_int (date ra)"
    using assms by simp
  then have "rd (of_int now - of_int (date rb)) \<le> rd (of_int now - of_int (date ra))"
    by (rule rd_mono)
  then have "rd (of_int now - of_int (date rb)) / 2592000000 \<le>
      rd (of_int now - of_int (date ra)) / 2592000000"
    by (simp add: divide_right_mono)
  then have "rd (rd (of_int now - of_int (date rb)) / 2592000000) \<le>
      rd (rd (of_int now - of_int (date ra)) / 2592000000)"
    by (rule rd_mono)
  then have "?m rb \<le> ?m ra" by (simp add: max_def)
  then have "DECAY powr ?m ra \<le> DECAY powr ?m rb"
    using DECAY_bounds by (intro powr_mono') simp_all
  then show ?thesis
    unfolding ride_weight_DECAY by (rule rd_mono)
qed

lemma ride_weight_nonneg: "0 \<le> ride_weight now r"
  unfolding ride_weight_DECAY by (rule rd_nonneg) simp

lemma DECAY_pow_half: "DECAY ^ (11 * n) \<le> (1 / 2) ^ n"
proof -
  have "DECAY ^ 11 \<le> (15 / 16) ^ 11"
    using DECAY_bounds by (intro power_mono) simp_all
  also have "\<dots> \<le> (1 / 2 :: real)" by (simp add: power_divide)
  finally have "(DECAY ^ 11) ^ n \<le> (1 / 2) ^ n"
    using DECAY_bounds by (intro power_mono) simp_all
  then show ?thesis by (simp add: power_mult)
qed

lemma DECAY_pow_12: "367 / 1000 \<le> DECAY ^ 12" "DECAY ^ 12 \<le> 368 / 1000"
  by (simp_all add: DECAY_value power_divide)

lemma DECAY_pow_444: "5 * pow2 (- 56) \<le> DECAY ^ 444" "DECAY ^ 444 \<le> 7 * pow2 (- 56)"
proof -
  have eq: "DECAY ^ 444 = (DECAY ^ 12) ^ 37" by (simp flip: power_mult)
  have "5 * pow2 (- 56) \<le> (367 / 1000 :: real) ^ 37"
    by (simp add: pow2_neg_numeral power_divide)
  also have "\<dots> \<le> (DECAY ^ 12) ^ 37"
    using DECAY_pow_12(1) by (intro power_mono) simp_all
  finally show "5 * pow2 (- 56) \<le> DECAY ^ 444" by (simp only: eq)
  have "(DECAY ^ 12) ^ 37 \<le> (368 / 1000 :: real) ^ 37"
    using DECAY_pow_12(2) DECAY_bounds(1) by (intro power_mono) simp_all
  also have "\<dots> \<le> 7 * pow2 (- 56)"
    by (simp add: pow2_neg_numeral power_divide)
  finally show "DECAY ^ 444 \<le> 7 * pow2 (- 56)" by (simp only: eq)
qed

lemma ride_at_simps: "date (ride_at d m) = d" "driverId (ride_at d m) = m"
  by (simp_all add: ride_at_def)

lemma drives_of_Cons:
  "drives_of m (r # rs) = (if driverId r = m then r # drives_of m rs else drives_of m rs)"
  by (simp add: drives_of_def)

lemma drives_of_Nil: "drives_of m [] = []"
  by (simp add: drives_of_def)


text \<open>Rides 12100 and 13200 months old have weights that underflow to zero.\<close>

lemma weight_underflow:
  assumes "0 < n" and "1100 \<le> n" and "11 * int n * 2592000000 < 2 ^ 53"
    and "date r = 0 - 2592000000 * (11 * int n)"
  shows "ride_weight 0 r = 0"
proof -
  have "ride_weight 0 r = rd (DECAY ^ nat (11 * int n))"
    using assms by (intro ride_weight_months) simp_all
  also have "nat (11 * int n) = 11 * n" by simp
  finally have w: "ride_weight 0 r = rd (DECAY ^ (11 * n))" .
  have "DECAY ^ (11 * n) \<le> (1 / 2) ^ n" by (rule DECAY_pow_half)
  also have "\<dots> \<le> (1 / 2) ^ 1100"
    using assms(2) by (intro power_decreasing) simp_all
  also have "\<dots> \<le> pow2 (- 1075)"
    by (simp add: pow2_neg_numeral power_divide)
  finally have "DECAY ^ (11 * n) \<le> pow2 (- 1075)" .
  moreover have "0 \<le> DECAY ^ (11 * n)" using DECAY_bounds(1) by simp
  ultimately show ?thesis
    unfolding w by (intro rd_underflow)
qed

lemma weight_12100: "ride_weight 0 (ride_at (- 31363200000000) m) = 0"
  by (rule weight_underflow [where n = 1100]) (simp_all add: ride_at_simps)

lemma weight_13200: "ride_weight 0 (ride_at (- 34214400000000) m) = 0"
  by (rule weight_underflow [where n = 1200]) (simp_all add: ride_at_simps)

text \<open>A ride 444 months old weighs between 5/16 and 7/16 of that distance.\<close>

lemma rd_5: "rd (5 * pow2 (- 56)) = 5 * pow2 (- 56)"
  by (rule rd_exactI [where e = "- 54" and m = 5 and k = "- 56"]) (simp_all add: pow2_neg_numeral)

lemma rd_7: "rd (7 * pow2 (- 56)) = 7 * pow2 (- 56)"
  by (rule rd_exactI [where e = "- 54" and m = 7 and k = "- 56"]) (simp_all add: pow2_neg_numeral)

lemma rd_10: "rd (10 * pow2 (- 56)) = 10 * pow2 (- 56)"
  by (rule rd_exactI [where e = "- 53" and m = 10 and k = "- 56"]) (simp_all add: pow2_neg_numeral)

lemma weight_444:
  "5 * pow2 (- 56) \<le> ride_weight 0 (ride_at (- 1150848000000) m)"
  "ride_weight 0 (ride_at (- 1150848000000) m) \<le> 7 * pow2 (- 56)"
proof -
  have w: "ride_weight 0 (ride_at (- 1150848000000) m) = rd (DECAY ^ 444)"
    using ride_weight_months [of 444 "ride_at (- 1150848000000) m" 0]
    by (simp add: ride_at_simps)
  have "rd (5 * pow2 (- 56)) \<le> rd (DECAY ^ 444)"
    by (intro rd_mono DECAY_pow_444)
  then show "5 * pow2 (- 56) \<le> ride_weight 0 (ride_at (- 1150848000000) m)"
    by (simp only: w rd_5)
  have "rd (DECAY ^ 444) \<le> rd (7 * pow2 (- 56))"
    by (intro rd_mono DECAY_pow_444)
  then show "ride_weight 0 (ride_at (- 1150848000000) m) \<le> 7 * pow2 (- 56)"
    by (simp only: w rd_7)
qed

lemma weight_today: "ride_weight 0 (ride_at 0 m) = 1"
  by (rule ride_weight_at_or_after) (simp add: ride_at_simps)

lemma rd_ride_weight: "rd (ride_weight now r) = ride_weight now r"
  by (simp add: ride_weight_def rd_idem)



lemma weighted_count_single:
  "drives_of m h = [r] \<Longrightarrow> weighted_count now h m = ride_weight now r"
  by (simp add: weighted_count_def rd_ride_weight)

lemma last_drive_single: "drives_of m h = [r] \<Longrightarrow> last_drive h m = max (date r) 0"
  by (simp add: last_drive_def)

lemmas count_simps = accumulate_closed weighted_count_def last_drive_def drives_of_Cons
  drives_of_Nil ride_at_simps

lemma rd_14: "rd (14 * pow2 (- 56)) = 14 * pow2 (- 56)"
  by (rule rd_exactI [where e = "- 53" and m = 14 and k = "- 56"]) (simp_all add: pow2_neg_numeral)

lemma two_old_rides_then_today:
  "rd (rd (2 * ride_weight 0 (ride_at (- 1150848000000) m)) + 1) = 1 + pow2 (- 52)"
proof -
  let ?w = "ride_weight 0 (ride_at (- 1150848000000) m)"
  have "rd (10 * pow2 (- 56)) \<le> rd (?w + ?w)"
    using weight_444(1) [of m] by (intro rd_mono) simp
  then have lo: "10 * pow2 (- 56) \<le> rd (?w + ?w)" by (simp only: rd_10)
  have "rd (?w + ?w) \<le> rd (14 * pow2 (- 56))"
    using weight_444(2) [of m] by (intro rd_mono) simp
  then have hi: "rd (?w + ?w) \<le> 14 * pow2 (- 56)" by (simp only: rd_14)
  have "pow2 (- 53) < 10 * pow2 (- 56)" and "14 * pow2 (- 56) < pow2 (- 52)"
    by (simp_all add: pow2_neg_numeral)
  with lo hi have "pow2 (- 53) < rd (?w + ?w)" and "rd (?w + ?w) < pow2 (- 52)"
    by linarith+
  then have "rd (1 + rd (?w + ?w)) = 1 + pow2 (- 52)"
    by (rule rd_near_one_rounds_up)
  then show ?thesis by (simp add: add.commute)
qed

lemma today_then_old_ride:
  "rd (1 + ride_weight 0 (ride_at (- 1150848000000) m)) = 1"
proof -
  have "7 * pow2 (- 56) < pow2 (- 53)" by (simp add: pow2_neg_numeral)
  with weight_444(2) [of m]
  have "ride_weight 0 (ride_at (- 1150848000000) m) < pow2 (- 53)" by linarith
  with ride_weight_nonneg show ?thesis by (rule rd_near_one_absorbs)
qed

section \<open>Rounding errors\<close>

lemma round_even_error: "\<bar>of_int (round_even y) - y\<bar> \<le> 1 / 2"
proof -
  have "of_int \<lfloor>y\<rfloor> \<le> y" and "y < of_int \<lfloor>y\<rfloor> + 1" by linarith+
  then show ?thesis
    unfolding round_even_def Let_def by (auto simp: abs_le_iff)
qed

lemma round_pos_error: "\<bar>round_pos x - x\<bar> \<le> ulp x / 2"
proof -
  define u where "u = ulp x"
  have u: "0 < u" by (simp add: u_def ulp_pos)
  have "round_pos x - x = (of_int (round_even (x / u)) - x / u) * u"
    using u by (simp add: round_pos_def u_def algebra_simps)
  then have "\<bar>round_pos x - x\<bar> = \<bar>of_int (round_even (x / u)) - x / u\<bar> * u"
    using u by (simp add: abs_mult)
  also have "\<dots> \<le> (1 / 2) * u"
    using u round_even_error [of "x / u"] by (intro mult_right_mono) simp_all
  finally show ?thesis by (simp add: u_def)
qed

lemma rd_error_below_8192:
  assumes "0 \<le> x" and "x < pow2 13"
  shows "\<bar>rd x - x\<bar> \<le> pow2 (- 41)"
proof (cases "x = 0")
  case True
  then show ?thesis using pow2_pos [of "- 41"] by (simp add: rd_0)
next
  case False
  with assms have x: "0 < x" by simp
  have "exponent x \<le> 12"
    using x assms(2) by (intro exponent_le) simp_all
  then have "ulp x \<le> pow2 (- 40)"
    by (simp add: ulp_pow2 pow2_le_iff)
  moreover have "pow2 (- 40) / 2 = pow2 (- 41)"
    by (simp add: pow2_neg_numeral)
  ultimately have "ulp x / 2 \<le> pow2 (- 41)" by linarith
  with round_pos_error [of x] x show ?thesis by (simp add: rd_pos_eq)
qed

lemma rd_error_relative:
  assumes "pow2 (- 1022) \<le> x"
  shows "\<bar>rd x - x\<bar> \<le> pow2 (- 53) * x"
proof -
  have x: "0 < x" using assms pow2_pos [of "- 1022"] by linarith
  have "exponent x - 52 = - 52 + exponent x" by simp
  then have "ulp x = pow2 (- 52) * pow2 (exponent x)"
    by (simp only: ulp_pow2 pow2_add)
  also have "\<dots> \<le> pow2 (- 52) * x"
    using exponent_lower [OF x assms] pow2_pos [of "- 52"] by (intro mult_left_mono) simp_all
  finally have "ulp x / 2 \<le> pow2 (- 52) * x / 2" by simp
  also have "pow2 (- 52) * x / 2 = pow2 (- 53) * x"
    by (simp add: pow2_neg_numeral)
  finally show ?thesis
    using round_pos_error [of x] x by (simp add: rd_pos_eq)
qed

text \<open>
  Two rides at most 8000 thirty-day months old and at least a millisecond apart have
  month counts at least \<open>pow2 (- 32)\<close> apart.
\<close>

lemma months_gap:
  assumes "date ra < date rb" and "date rb \<le> now" and "now - date ra \<le> 8000 * 2592000000"
  shows "max 0 (rd (rd (of_int now - of_int (date rb)) / 2592000000)) + pow2 (- 32) \<le>
         max 0 (rd (rd (of_int now - of_int (date ra)) / 2592000000))"
    and "max 0 (rd (rd (of_int now - of_int (date ra)) / 2592000000)) \<le> 8000"
    and "0 \<le> max 0 (rd (rd (of_int now - of_int (date rb)) / 2592000000))"
proof -
  define na where "na = now - date ra"
  define nb where "nb = now - date rb"
  define qa :: real where "qa = of_int na / 2592000000"
  define qb :: real where "qb = of_int nb / 2592000000"
  have n: "0 \<le> nb" "nb + 1 \<le> na" "na \<le> 20736000000000"
    using assms by (simp_all add: na_def nb_def)
  have ea: "rd (of_int now - of_int (date ra)) = of_int na"
    using n rd_of_int_exact [of na] by (simp add: na_def)
  have eb: "rd (of_int now - of_int (date rb)) = of_int nb"
    using n rd_of_int_exact [of nb] by (simp add: nb_def)
  have "(of_int nb :: real) + 1 \<le> of_int na"
    using n(2) by (metis of_int_1 of_int_add of_int_le_iff)
  then have gap: "qb + 1 / 2592000000 \<le> qa"
    by (simp add: qa_def qb_def field_simps)
  have "(of_int na :: real) \<le> of_int 20736000000000"
    using n(3) by (simp only: of_int_le_iff)
  then have qa_hi: "qa \<le> 8000" by (simp add: qa_def)
  have "(0::real) \<le> of_int nb" using n(1) by simp
  then have qb_lo: "0 \<le> qb" by (simp add: qb_def)
  have small: "(8000::real) < pow2 13" by (simp add: pow2_numeral)
  have "\<bar>rd qa - qa\<bar> \<le> pow2 (- 41)"
    using gap qb_lo qa_hi small by (intro rd_error_below_8192) simp_all
  moreover have "\<bar>rd qb - qb\<bar> \<le> pow2 (- 41)"
    using gap qb_lo qa_hi small by (intro rd_error_below_8192) simp_all
  moreover have "pow2 (- 41) + pow2 (- 41) + pow2 (- 32) \<le> (1 / 2592000000 :: real)"
    by (simp add: pow2_neg_numeral)
  ultimately have "rd qb + pow2 (- 32) \<le> rd qa"
    using gap by linarith
  moreover have "0 \<le> rd qb" using qb_lo by (rule rd_nonneg)
  ultimately show "max 0 (rd (rd (of_int now - of_int (date rb)) / 2592000000)) + pow2 (- 32) \<le>
         max 0 (rd (rd (of_int now - of_int (date ra)) / 2592000000))"
    using pow2_pos [of "- 32"] by (simp add: ea eb flip: qa_def qb_def)
  have "rd qa \<le> rd 8000" using qa_hi by (rule rd_mono)
  also have "rd 8000 = 8000" using rd_of_int_exact [of 8000] by simp
  finally show "max 0 (rd (rd (of_int now - of_int (date ra)) / 2592000000)) \<le> 8000"
    by (simp add: ea flip: qa_def)
  show "0 \<le> max 0 (rd (rd (of_int now - of_int (date rb)) / 2592000000))"
    by simp
qed

text \<open>Over \<open>pow2 (- 32)\<close> of a month the weight shrinks by more than one part in \<open>2 ^ 36\<close>.\<close>

lemma DECAY_small_step: "DECAY powr pow2 (- 32) \<le> 1 - pow2 (- 36)"
proof -
  define n :: nat where "n = 2 ^ 32"
  define y :: real where "y = 1 - pow2 (- 36)"
  have n: "real n = 2 ^ 32" by (simp add: n_def)
  have y: "0 < y" "y < 1" by (simp_all add: y_def pow2_neg_numeral)
  have "1 + real n * (- pow2 (- 36)) \<le> (1 + (- pow2 (- 36))) ^ n"
    by (rule Bernoulli_inequality) (simp add: pow2_neg_numeral)
  moreover have "1 + real n * (- pow2 (- 36)) = 15 / 16"
    by (simp add: n pow2_neg_numeral)
  ultimately have "15 / 16 \<le> y ^ n" by (simp add: y_def)
  with DECAY_bounds(3) have "DECAY \<le> y ^ n" by linarith
  then have "DECAY powr (1 / real n) \<le> (y ^ n) powr (1 / real n)"
    using DECAY_bounds(1) by (intro powr_mono2) simp_all
  also have "(y ^ n) powr (1 / real n) = (y powr real n) powr (1 / real n)"
    using y(1) by (simp only: powr_realpow)
  also have "\<dots> = y powr (real n * (1 / real n))"
    by (rule powr_powr)
  also have "real n * (1 / real n) = 1"
    by (simp add: n_def)
  also have "y powr 1 = y"
    using y(1) by simp
  finally have "DECAY powr (1 / real n) \<le> y" .
  moreover have "1 / real n = pow2 (- 32)" by (simp add: n pow2_neg_numeral)
  ultimately show ?thesis by (simp add: y_def)
qed

lemma DECAY_powr_8000: "pow2 (- 1000) \<le> DECAY powr 8000"
proof -
  have "1 / 2 \<le> DECAY ^ 8" by (simp add: DECAY_value power_divide)
  then have "(1 / 2) ^ 1000 \<le> (DECAY ^ 8) ^ 1000"
    by (intro power_mono) simp_all
  moreover have "(1 / 2 :: real) ^ 1000 = pow2 (- 1000)"
    by (simp add: pow2_neg_numeral power_divide)
  moreover have "(DECAY ^ 8) ^ 1000 = DECAY powr 8000"
    using DECAY_bounds(1) by (simp flip: power_mult)
  ultimately show ?thesis by simp
qed

lemma weight_strict:
  assumes "mb + pow2 (- 32) \<le> ma" and "0 \<le> mb" and "ma \<le> 8000"
  shows "rd (DECAY powr ma) < rd (DECAY powr mb)"
proof -
  define ta where "ta = DECAY powr ma"
  define tb where "tb = DECAY powr mb"
  define b where "b = pow2 (- 53)"
  define e where "e = pow2 (- 36)"
  have d: "0 < DECAY" "DECAY \<le> 1" using DECAY_bounds by simp_all
  have "DECAY powr 8000 \<le> ta"
    unfolding ta_def using assms(3) d by (intro powr_mono') simp_all
  with DECAY_powr_8000 have ta_lo: "pow2 (- 1000) \<le> ta" by linarith
  have "pow2 (- 1022) \<le> pow2 (- 1000)" by (simp add: pow2_le_iff)
  with ta_lo have ta_n: "pow2 (- 1022) \<le> ta" by linarith
  have "ma = mb + (ma - mb)" by simp
  then have "ta = tb * DECAY powr (ma - mb)"
    unfolding ta_def tb_def by (metis powr_add)
  moreover have "DECAY powr (ma - mb) \<le> DECAY powr pow2 (- 32)"
    using assms(1) d by (intro powr_mono') simp_all
  moreover have tb_pos: "0 < tb" using d(1) by (simp add: tb_def)
  ultimately have "ta \<le> tb * DECAY powr pow2 (- 32)"
    by (simp add: mult_left_mono)
  also have "\<dots> \<le> tb * (1 - e)"
    unfolding e_def using DECAY_small_step tb_pos by (intro mult_left_mono) simp_all
  finally have step: "ta \<le> tb * (1 - e)" .
  have "0 < e" "e < 1" by (simp_all add: e_def pow2_neg_numeral)
  then have "tb * (1 - e) \<le> tb * 1"
    using tb_pos by (intro mult_left_mono) simp_all
  with step have "ta \<le> tb" by simp
  with ta_n have tb_n: "pow2 (- 1022) \<le> tb" by linarith
  have "rd ta \<le> ta + b * ta"
    using rd_error_relative [OF ta_n] by (simp add: b_def abs_le_iff)
  moreover have "tb - b * tb \<le> rd tb"
    using rd_error_relative [OF tb_n] by (simp add: b_def abs_le_iff)
  moreover have "ta + b * ta < tb - b * tb"
  proof -
    have bpos: "0 < b" by (simp add: b_def pow2_pos)
    have "ta + b * ta = ta * (1 + b)" by (simp add: algebra_simps)
    also have "\<dots> \<le> (tb * (1 - e)) * (1 + b)"
      using step bpos by (intro mult_right_mono) simp_all
    also have "\<dots> = tb * ((1 - e) * (1 + b))" by simp
    also have "\<dots> < tb * (1 - b)"
    proof -
      have "(1 - e) * (1 + b) < 1 - b"
        by (simp add: e_def b_def pow2_neg_numeral)
      then show ?thesis using tb_pos by (simp only: mult_less_cancel_left_pos)
    qed
    also have "\<dots> = tb - b * tb" by (simp add: algebra_simps)
    finally show ?thesis .
  qed
  ultimately show ?thesis
    unfolding ta_def tb_def by linarith
qed

lemma ride_weight_strict:
  assumes "date ra < date rb" and "date rb \<le> now" and "now - date ra \<le> 8000 * 2592000000"
  shows "ride_weight now ra < ride_weight now rb"
  unfolding ride_weight_DECAY
  by (rule weight_strict) (rule months_gap [OF assms])+

section \<open>The ranking\<close>



section \<open>One ride of the history\<close>




section \<open>The null sentinel\<close>

text \<open>
  Claim C3. \<open>nextDriver\<close> returns \<^verbatim>\<open>null\<close> exactly when the present list is empty.
  The function is total and has no failing branch: its result is never \<^verbatim>\<open>undefined\<close>,
  and for a non-empty present list it is the id of a member of that list, whatever the
  history, the clock and the reference time are.
\<close>

theorem nextDriver_null_iff_empty:
  "(nextDriver clock present history nowISO = Null \<longleftrightarrow> present = []) \<and>
   nextDriver clock present history nowISO \<noteq> Undefined \<and>
   (present \<noteq> [] \<longrightarrow> (\<exists>m\<in>set present. nextDriver clock present history nowISO = Str m))"
proof (cases "present = []")
  case True
  then show ?thesis by (simp add: nextDriver_def)
next
  case False
  from first_ranked [OF False, of "now_of clock nowISO" history] obtain i where
    "i < length present" and
    "first_elem (sorted_present (now_of clock nowISO) present history) = Str (present ! i)"
    by blast
  with False show ?thesis
    by (auto simp: nextDriver_nonempty)
qed

theorem nextDriver_null_iff_empty_witness:
  "nextDriver 5 [] [ride_at 3 ''ann''] None = Null \<and>
   nextDriver 5 [''ann'', ''bob''] [ride_at 3 ''ann'', ride_at 4 ''zoe''] None \<noteq> Null \<and>
   nextDriver 5 [''ann'', ''bob''] [ride_at 3 ''ann'', ride_at 4 ''zoe''] None \<noteq> Undefined \<and>
   [''ann'', ''bob''] \<noteq> [] \<and>
   (\<exists>m\<in>set [''ann'', ''bob''].
      nextDriver 5 [''ann'', ''bob''] [ride_at 3 ''ann'', ride_at 4 ''zoe''] None = Str m)"
  using nextDriver_null_iff_empty [of 5 "[]" "[ride_at 3 ''ann'']" None]
    nextDriver_null_iff_empty [of 5 "[''ann'', ''bob'']" "[ride_at 3 ''ann'', ride_at 4 ''zoe'']" None]
  by simp

section \<open>Empty history\<close>

text \<open>
  Claim C4. With an empty history every present member has weighted count zero and
  last-drive instant zero, and \<open>nextDriver\<close> returns the first member of the present list.
\<close>

theorem nextDriver_empty_history:
  "nextDriver clock (m # ms) [] nowISO = Str m \<and>
   (\<forall>x\<in>set (m # ms).
      counts (accumulate (now_of clock nowISO) (m # ms) []) x = Some 0 \<and>
      lastDates (accumulate (now_of clock nowISO) (m # ms) []) x = Some 0)"
proof -
  have "counts (accumulate (now_of clock nowISO) (m # ms) []) x = Some 0 \<and>
      lastDates (accumulate (now_of clock nowISO) (m # ms) []) x = Some 0"
    if "x \<in> set (m # ms)" for x
    using that by (simp add: accumulate_Nil counts_init lastDates_init)
  then show ?thesis
    using nextDriver_no_history [of clock m ms nowISO] by blast
qed

theorem nextDriver_empty_history_witness:
  "nextDriver 7 [''cleo'', ''ann''] [] (Some 9) = Str ''cleo'' \<and>
   counts (accumulate 9 [''cleo'', ''ann''] []) ''cleo'' = Some 0 \<and>
   lastDates (accumulate 9 [''cleo'', ''ann''] []) ''cleo'' = Some 0 \<and>
   counts (accumulate 9 [''cleo'', ''ann''] []) ''ann'' = Some 0 \<and>
   lastDates (accumulate 9 [''cleo'', ''ann''] []) ''ann'' = Some 0"
  using nextDriver_empty_history [of 7 "''cleo''" "[''ann'']" "Some 9"]
  by (simp add: now_of_def)

section \<open>Rides of absent drivers\<close>

text \<open>
  Claim C5. A ride whose driver is not in the present list changes nothing: with the ride
  anywhere in the history or without it, the two maps, the sorted list and the result of
  \<open>nextDriver\<close> are the same.
\<close>

theorem absent_driver_ignored:
  assumes "driverId r \<notin> set present"
  shows "accumulate now present (h1 @ r # h2) = accumulate now present (h1 @ h2) \<and>
         sorted_present now present (h1 @ r # h2) = sorted_present now present (h1 @ h2) \<and>
         nextDriver clock present (h1 @ r # h2) nowISO = nextDriver clock present (h1 @ h2) nowISO"
proof -
  have same: "accumulate t present (h1 @ r # h2) = accumulate t present (h1 @ h2)" for t
  proof (rule accumulate_same_drives)
    fix m assume "m \<in> set present"
    with assms have "driverId r \<noteq> m" by blast
    then show "drives_of m (h1 @ r # h2) = drives_of m (h1 @ h2)"
      by (rule drives_of_skip)
  qed
  then show ?thesis
    by (simp add: nextDriver_def sorted_present_def)
qed

theorem absent_driver_ignored_witness:
  "driverId (ride_at 4 ''zoe'') \<notin> set [''ann'', ''bob''] \<and>
   accumulate 9 [''ann'', ''bob''] ([ride_at 3 ''ann''] @ ride_at 4 ''zoe'' # [ride_at 5 ''bob'']) =
     accumulate 9 [''ann'', ''bob''] ([ride_at 3 ''ann''] @ [ride_at 5 ''bob'']) \<and>
   nextDriver 9 [''ann'', ''bob''] ([ride_at 3 ''ann''] @ ride_at 4 ''zoe'' # [ride_at 5 ''bob'']) None =
     nextDriver 9 [''ann'', ''bob''] ([ride_at 3 ''ann''] @ [ride_at 5 ''bob'']) None"
proof -
  have absent: "driverId (ride_at 4 ''zoe'') \<notin> set [''ann'', ''bob'']"
    by (simp add: ride_at_def)
  from absent_driver_ignored [OF absent, of 9 "[ride_at 3 ''ann'']" "[ride_at 5 ''bob'']" 9 None]
  show ?thesis
    using absent by blast
qed

section \<open>Decay\<close>

text \<open>
  Claim C6, as stated, fails: a weight is a binary64 value, and the weights of two rides
  that are old enough both underflow to zero. With sole drives 13200 and 12100 thirty-day
  months before the reference time (both dates are valid time values), both counts are 0,
  both last-drive instants are clamped to 0, and the member listed first is returned, here
  the one whose drive is the more recent.
\<close>

theorem both_weights_underflow:
  "''ann'' \<in> set [''bob'', ''ann''] \<and> ''bob'' \<in> set [''bob'', ''ann''] \<and>
   drives_of ''ann'' [ride_at (- 31363200000000) ''bob'', ride_at (- 34214400000000) ''ann''] =
     [ride_at (- 34214400000000) ''ann''] \<and>
   drives_of ''bob'' [ride_at (- 31363200000000) ''bob'', ride_at (- 34214400000000) ''ann''] =
     [ride_at (- 31363200000000) ''bob''] \<and>
   date (ride_at (- 34214400000000) ''ann'') < date (ride_at (- 31363200000000) ''bob'') \<and>
   date (ride_at (- 31363200000000) ''bob'') \<le> now_of 0 (Some 0) \<and>
   counts (accumulate 0 [''bob'', ''ann'']
     [ride_at (- 31363200000000) ''bob'', ride_at (- 34214400000000) ''ann'']) ''ann'' = Some 0 \<and>
   counts (accumulate 0 [''bob'', ''ann'']
     [ride_at (- 31363200000000) ''bob'', ride_at (- 34214400000000) ''ann'']) ''bob'' = Some 0 \<and>
   nextDriver 0 [''bob'', ''ann'']
     [ride_at (- 31363200000000) ''bob'', ride_at (- 34214400000000) ''ann''] (Some 0) = Str ''bob''"
proof -
  let ?h = "[ride_at (- 31363200000000) ''bob'', ride_at (- 34214400000000) ''ann'']"
  have ca: "counts (accumulate 0 [''bob'', ''ann''] ?h) ''ann'' = Some 0"
    and cb: "counts (accumulate 0 [''bob'', ''ann''] ?h) ''bob'' = Some 0"
    by (simp_all add: count_simps weight_12100 weight_13200 rd_0)
  have la: "lastDates (accumulate 0 [''bob'', ''ann''] ?h) ''ann'' = Some 0"
    and lb: "lastDates (accumulate 0 [''bob'', ''ann''] ?h) ''bob'' = Some 0"
    by (simp_all add: count_simps)
  have "ranks_le (accumulate 0 [''bob'', ''ann''] ?h) ''bob'' ''ann''"
    by (simp add: ranks_le_def ca cb la lb nullish_zero_def)
  then have "nextDriver 0 [''bob'', ''ann''] ?h (Some 0) = Str ''bob''"
    by (simp add: nextDriver_pair now_of_def)
  with ca cb show ?thesis
    by (simp add: drives_of_Cons drives_of_Nil ride_at_simps now_of_def)
qed

text \<open>
  Claim C6, amended. Let \<open>ra\<close> be the only ride that present member \<open>a\<close> drove and \<open>rb\<close> the
  only ride that present member \<open>b\<close> drove, \<open>ra\<close> strictly older than \<open>rb\<close> and both
  dated at or before the reference time. If \<open>ra\<close> is at most 8000 thirty-day months older
  than the reference time, then the count of \<open>a\<close>, in the single-ride history of \<open>ra\<close>
  and in the history that holds both rides, is strictly smaller than that of \<open>b\<close>,
  \<open>nextDriver\<close> does not return \<open>b\<close>, and it returns \<open>a\<close> when the two are the only
  present members, in whichever order they are listed. Without the bound on the age the
  count of \<open>a\<close> is still not larger than that of \<open>b\<close>, and \<open>a\<close> is still preferred in
  this way whenever the counts differ or \<open>rb\<close> is dated after the epoch, where the
  tie-break on the last-drive instant separates the two.
\<close>

theorem older_sole_drive_not_behind:
  assumes "a \<in> set present" and "b \<in> set present"
    and "drives_of a history = [ra]" and "drives_of b history = [rb]"
    and "date ra < date rb" and "date rb \<le> now_of clock nowISO"
  shows "\<exists>ca cb.
           counts (accumulate (now_of clock nowISO) present [ra]) a = Some ca \<and>
           counts (accumulate (now_of clock nowISO) present [rb]) b = Some cb \<and>
           counts (accumulate (now_of clock nowISO) present history) a = Some ca \<and>
           counts (accumulate (now_of clock nowISO) present history) b = Some cb \<and>
           ca \<le> cb \<and>
           (now_of clock nowISO - date ra \<le> 8000 * (1000 * 60 * 60 * 24 * 30) \<longrightarrow> ca < cb) \<and>
           (ca < cb \<or> 0 < date rb \<longrightarrow>
              nextDriver clock present history nowISO \<noteq> Str b \<and>
              (set present = {a, b} \<longrightarrow> nextDriver clock present history nowISO = Str a))"
proof -
  let ?now = "now_of clock nowISO"
  let ?st = "accumulate ?now present history"
  have "ra \<in> set (drives_of a history)" and "rb \<in> set (drives_of b history)"
    using assms(3,4) by simp_all
  then have drv: "driverId ra = a" "driverId rb = b"
    by (simp_all add: drives_of_def)
  have sa: "drives_of a [ra] = [ra]" and sb: "drives_of b [rb] = [rb]"
    using drv by (simp_all add: drives_of_def)
  have le: "ride_weight ?now ra \<le> ride_weight ?now rb"
    using assms(5) by (intro ride_weight_mono) simp
  have ca: "counts ?st a = Some (ride_weight ?now ra)"
    and cb: "counts ?st b = Some (ride_weight ?now rb)"
    using assms(1,2) by (simp_all add: accumulate_closed weighted_count_single assms(3,4))
  have ca1: "counts (accumulate ?now present [ra]) a = Some (ride_weight ?now ra)"
    and cb1: "counts (accumulate ?now present [rb]) b = Some (ride_weight ?now rb)"
    using assms(1,2) by (simp_all add: accumulate_closed weighted_count_single sa sb)
  have la: "lastDates ?st a = Some (max (date ra) 0)"
    and lb: "lastDates ?st b = Some (max (date rb) 0)"
    using assms(1,2) by (simp_all add: accumulate_closed last_drive_single assms(3,4))
  have ne: "present \<noteq> []"
    using assms(1) by auto
  have sel: "nextDriver clock present history nowISO \<noteq> Str b \<and>
      (set present = {a, b} \<longrightarrow> nextDriver clock present history nowISO = Str a)"
    if strict: "ride_weight ?now ra < ride_weight ?now rb \<or> 0 < date rb"
  proof -
    from first_ranked [OF ne, of ?now history] obtain i where
      i: "i < length present" and
      res: "nextDriver clock present history nowISO = Str (present ! i)" and
      least: "\<forall>j<length present. ranks_le ?st (present ! i) (present ! j)"
      by (auto simp: nextDriver_nonempty [OF ne])
    from assms(1) obtain j where "j < length present" "present ! j = a"
      by (auto simp: in_set_conv_nth)
    with least have "ranks_le ?st (present ! i) a"
      by auto
    moreover have "\<not> ranks_le ?st b a"
      using strict le assms(5) by (auto simp: ranks_le_def ca cb la lb nullish_zero_def)
    ultimately have not_b: "present ! i \<noteq> b"
      by auto
    moreover have "present ! i = a" if "set present = {a, b}"
      using that not_b i nth_mem [of i present] by auto
    ultimately show ?thesis
      using res by simp
  qed
  have young: "ride_weight ?now ra < ride_weight ?now rb"
    if "?now - date ra \<le> 8000 * (1000 * 60 * 60 * 24 * 30)"
    using assms(5,6) that by (intro ride_weight_strict) simp_all
  show ?thesis
    using le sel young
    by (intro exI [of _ "ride_weight ?now ra"] exI [of _ "ride_weight ?now rb"] conjI)
      (simp_all add: ca cb ca1 cb1)
qed

theorem older_sole_drive_not_behind_witness:
  "''ann'' \<in> set [''bob'', ''ann''] \<and> ''bob'' \<in> set [''bob'', ''ann''] \<and>
   drives_of ''ann'' [ride_at 10 ''bob'', ride_at 5 ''ann''] = [ride_at 5 ''ann''] \<and>
   drives_of ''bob'' [ride_at 10 ''bob'', ride_at 5 ''ann''] = [ride_at 10 ''bob''] \<and>
   date (ride_at 5 ''ann'') < date (ride_at 10 ''bob'') \<and>
   date (ride_at 10 ''bob'') \<le> now_of 0 (Some 20) \<and>
   now_of 0 (Some 20) - date (ride_at 5 ''ann'') \<le> 8000 * (1000 * 60 * 60 * 24 * 30) \<and>
   (\<exists>ca cb.
      counts (accumulate (now_of 0 (Some 20)) [''bob'', ''ann'']
        [ride_at 10 ''bob'', ride_at 5 ''ann'']) ''ann'' = Some ca \<and>
      counts (accumulate (now_of 0 (Some 20)) [''bob'', ''ann'']
        [ride_at 10 ''bob'', ride_at 5 ''ann'']) ''bob'' = Some cb \<and>
      ca < cb) \<and>
   nextDriver 0 [''bob'', ''ann''] [ride_at 10 ''bob'', ride_at 5 ''ann''] (Some 20) \<noteq> Str ''bob'' \<and>
   nextDriver 0 [''bob'', ''ann''] [ride_at 10 ''bob'', ride_at 5 ''ann''] (Some 20) = Str ''ann''"
proof -
  have h1: "''ann'' \<in> set [''bob'', ''ann'']" and h2: "''bob'' \<in> set [''bob'', ''ann'']"
    by simp_all
  have h3: "drives_of ''ann'' [ride_at 10 ''bob'', ride_at 5 ''ann''] = [ride_at 5 ''ann'']"
    and h4: "drives_of ''bob'' [ride_at 10 ''bob'', ride_at 5 ''ann''] = [ride_at 10 ''bob'']"
    by (simp_all add: drives_of_def ride_at_def)
  have h5: "date (ride_at 5 ''ann'') < date (ride_at 10 ''bob'')"
    and h6: "date (ride_at 10 ''bob'') \<le> now_of 0 (Some 20)"
    and h7: "now_of 0 (Some 20) - date (ride_at 5 ''ann'') \<le> 8000 * (1000 * 60 * 60 * 24 * 30)"
    by (simp_all add: ride_at_def now_of_def)
  have both: "set [''bob'', ''ann''] = {''ann'', ''bob''}"
    by auto
  from older_sole_drive_not_behind [OF h1 h2 h3 h4 h5 h6] both h7
  show ?thesis
    using h1 h2 h3 h4 h5 h6 by blast
qed

section \<open>Duplicates in the present list\<close>

text \<open>
  Claim C7. A present list with duplicate ids gives the same two maps and the same result
  as the list with the duplicates removed and the first occurrences kept: a repeated id
  neither resets a member's entries nor makes a ride count twice.
\<close>

theorem duplicates_as_set:
  "distinct (keep_first present) \<and>
   set (keep_first present) = set present \<and>
   accumulate now present history = accumulate now (keep_first present) history \<and>
   nextDriver clock present history nowISO = nextDriver clock (keep_first present) history nowISO"
proof (cases "present = []")
  case True
  then show ?thesis by (simp add: nextDriver_def)
next
  case False
  let ?q = "keep_first present"
  let ?now = "now_of clock nowISO"
  have q: "?q \<noteq> []" "set ?q = set present"
    using False by (cases present, simp_all) (rule set_keep_first)
  have acc: "accumulate t present history = accumulate t ?q history" for t
    by (rule accumulate_eqI) (simp_all add: set_keep_first)
  from first_ranked [OF False, of ?now history] obtain i where
    res: "first_elem (sorted_present ?now present history) = Str (present ! i)"
    by blast
  then have "find (\<lambda>x. \<forall>y\<in>set present. ranks_le (accumulate ?now present history) x y) present =
      Some (present ! i)"
    by (simp add: first_ranked_find [OF False])
  then have "find (\<lambda>x. \<forall>y\<in>set ?q. ranks_le (accumulate ?now ?q history) x y) ?q =
      Some (present ! i)"
    by (simp add: q find_keep_first flip: acc)
  then have "first_elem (sorted_present ?now ?q history) = Str (present ! i)"
    by (simp add: first_ranked_find [OF q(1)])
  with res have "nextDriver clock present history nowISO = nextDriver clock ?q history nowISO"
    using False q by (simp add: nextDriver_nonempty)
  then show ?thesis
    using acc by (simp add: distinct_keep_first set_keep_first)
qed

theorem duplicates_as_set_witness:
  "distinct (keep_first [''ann'', ''bob'', ''ann'']) \<and>
   set (keep_first [''ann'', ''bob'', ''ann'']) = set [''ann'', ''bob'', ''ann''] \<and>
   accumulate 9 [''ann'', ''bob'', ''ann''] [ride_at 3 ''ann''] =
     accumulate 9 (keep_first [''ann'', ''bob'', ''ann'']) [ride_at 3 ''ann''] \<and>
   nextDriver 9 [''ann'', ''bob'', ''ann''] [ride_at 3 ''ann''] None =
     nextDriver 9 (keep_first [''ann'', ''bob'', ''ann'']) [ride_at 3 ''ann''] None \<and>
   keep_first [''ann'', ''bob'', ''ann''] = [''ann'', ''bob'']"
  using duplicates_as_set [of "[''ann'', ''bob'', ''ann'']" 9 "[ride_at 3 ''ann'']" 9 None]
  by simp

section \<open>The order of the history\<close>

text \<open>
  Claim C8, as stated, fails: a count is the binary64 sum of a member's weights in history
  order, and that sum depends on the order. A ride 444 thirty-day months old weighs between
  5/16 and 7/16 of the distance from 1 to the next double. Added one at a time to a count
  of 1, two such rides leave it at 1; added to each other first, they lift the count to the
  next double. With a second member whose count is 1, the first history ties the two and
  returns the member listed first, the second returns the other one.
\<close>

theorem history_order_changes_result:
  "mset [ride_at 0 ''ann'', ride_at (- 1150848000000) ''ann'',
         ride_at (- 1150848000000) ''ann'', ride_at 0 ''bob''] =
   mset [ride_at (- 1150848000000) ''ann'', ride_at (- 1150848000000) ''ann'',
         ride_at 0 ''ann'', ride_at 0 ''bob''] \<and>
   nextDriver 0 [''ann'', ''bob'']
     [ride_at 0 ''ann'', ride_at (- 1150848000000) ''ann'',
      ride_at (- 1150848000000) ''ann'', ride_at 0 ''bob''] (Some 0) = Str ''ann'' \<and>
   nextDriver 0 [''ann'', ''bob'']
     [ride_at (- 1150848000000) ''ann'', ride_at (- 1150848000000) ''ann'',
      ride_at 0 ''ann'', ride_at 0 ''bob''] (Some 0) = Str ''bob''"
proof -
  let ?old = "ride_at (- 1150848000000) ''ann''"
  let ?h1 = "[ride_at 0 ''ann'', ?old, ?old, ride_at 0 ''bob'']"
  let ?h2 = "[?old, ?old, ride_at 0 ''ann'', ride_at 0 ''bob'']"
  let ?p = "[''ann'', ''bob'']"
  have a1: "counts (accumulate 0 ?p ?h1) ''ann'' = Some 1"
    by (simp add: count_simps weight_today rd_1 today_then_old_ride)
  have a2: "counts (accumulate 0 ?p ?h2) ''ann'' = Some (1 + pow2 (- 52))"
    by (simp add: count_simps weight_today rd_ride_weight two_old_rides_then_today)
  have b1: "counts (accumulate 0 ?p ?h1) ''bob'' = Some 1"
    and b2: "counts (accumulate 0 ?p ?h2) ''bob'' = Some 1"
    by (simp_all add: count_simps weight_today rd_1)
  have l1: "lastDates (accumulate 0 ?p ?h1) ''ann'' = Some 0"
    "lastDates (accumulate 0 ?p ?h1) ''bob'' = Some 0"
    by (simp_all add: count_simps)
  have "ranks_le (accumulate 0 ?p ?h1) ''ann'' ''bob''"
    by (simp add: ranks_le_def a1 b1 l1 nullish_zero_def)
  then have r1: "nextDriver 0 ?p ?h1 (Some 0) = Str ''ann''"
    by (simp add: nextDriver_pair now_of_def)
  have "\<not> ranks_le (accumulate 0 ?p ?h2) ''ann'' ''bob''"
    using pow2_pos [of "- 52"] by (simp add: ranks_le_def a2 b2 nullish_zero_def)
  then have r2: "nextDriver 0 ?p ?h2 (Some 0) = Str ''bob''"
    by (simp add: nextDriver_pair now_of_def)
  from r1 r2 show ?thesis by simp
qed

text \<open>
  Claim C8, amended. Two histories in which every present member's own rides come in the
  same order give the same two maps and the same result: rides of different drivers, and
  rides of absent drivers, can be moved past each other. And under every permutation of the
  history the last-drive instants are the same.
\<close>

theorem same_order_per_driver:
  "((\<forall>m\<in>set present. drives_of m h = drives_of m h') \<longrightarrow>
      accumulate now present h = accumulate now present h' \<and>
      nextDriver clock present h nowISO = nextDriver clock present h' nowISO) \<and>
   (mset h = mset h' \<longrightarrow>
      lastDates (accumulate now present h) = lastDates (accumulate now present h'))"
proof (intro conjI impI)
  assume same: "\<forall>m\<in>set present. drives_of m h = drives_of m h'"
  then have eq: "accumulate t present h = accumulate t present h'" for t
    by (intro accumulate_same_drives) simp
  then show "accumulate now present h = accumulate now present h'" .
  from eq show "nextDriver clock present h nowISO = nextDriver clock present h' nowISO"
    by (simp add: nextDriver_def sorted_present_def)
next
  assume "mset h = mset h'"
  then have "last_drive h m = last_drive h' m" for m
    by (rule last_drive_permute)
  then show "lastDates (accumulate now present h) = lastDates (accumulate now present h')"
    by (simp add: accumulate_closed fun_eq_iff)
qed

theorem same_order_per_driver_witness:
  "drives_of ''ann'' [ride_at 3 ''ann'', ride_at 5 ''bob''] =
     drives_of ''ann'' [ride_at 5 ''bob'', ride_at 3 ''ann''] \<and>
   drives_of ''bob'' [ride_at 3 ''ann'', ride_at 5 ''bob''] =
     drives_of ''bob'' [ride_at 5 ''bob'', ride_at 3 ''ann''] \<and>
   mset [ride_at 3 ''ann'', ride_at 5 ''bob''] = mset [ride_at 5 ''bob'', ride_at 3 ''ann''] \<and>
   accumulate 9 [''ann'', ''bob''] [ride_at 3 ''ann'', ride_at 5 ''bob''] =
     accumulate 9 [''ann'', ''bob''] [ride_at 5 ''bob'', ride_at 3 ''ann''] \<and>
   nextDriver 9 [''ann'', ''bob''] [ride_at 3 ''ann'', ride_at 5 ''bob''] None =
     nextDriver 9 [''ann'', ''bob''] [ride_at 5 ''bob'', ride_at 3 ''ann''] None \<and>
   lastDates (accumulate 9 [''ann'', ''bob''] [ride_at 3 ''ann'', ride_at 5 ''bob'']) =
     lastDates (accumulate 9 [''ann'', ''bob''] [ride_at 5 ''bob'', ride_at 3 ''ann''])"
proof -
  have d1: "drives_of ''ann'' [ride_at 3 ''ann'', ride_at 5 ''bob''] =
      drives_of ''ann'' [ride_at 5 ''bob'', ride_at 3 ''ann'']"
    and d2: "drives_of ''bob'' [ride_at 3 ''ann'', ride_at 5 ''bob''] =
      drives_of ''bob'' [ride_at 5 ''bob'', ride_at 3 ''ann'']"
    by (simp_all add: drives_of_def ride_at_def)
  have m: "mset [ride_at 3 ''ann'', ride_at 5 ''bob''] = mset [ride_at 5 ''bob'', ride_at 3 ''ann'']"
    by (simp add: add_mset_commute)
  from same_order_per_driver [of "[''ann'', ''bob'']" "[ride_at 3 ''ann'', ride_at 5 ''bob'']"
      "[ride_at 5 ''bob'', ride_at 3 ''ann'']" 9 9 None] d1 d2 m
  show ?thesis by simp
qed

section \<open>The clock\<close>

text \<open>
  Claim C9. When a reference time is supplied, the result of \<open>nextDriver\<close> is a function
  of the present list, the history and that reference time alone: the reading of the
  clock, the only input the call does not receive as an argument, has no effect, so two
  calls with the same arguments return the same value.
\<close>

theorem nextDriver_ignores_clock:
  "nextDriver clock present history (Some t) = nextDriver clock' present history (Some t)"
  by (simp add: nextDriver_def now_of_def)

theorem nextDriver_ignores_clock_witness:
  "nextDriver 1 [''ann'', ''bob''] [ride_at 3 ''ann''] (Some 9) =
   nextDriver 2 [''ann'', ''bob''] [ride_at 3 ''ann''] (Some 9)"
  by (rule nextDriver_ignores_clock)

section \<open>The driver stored on a new ride\<close>

text \<open>
  Claim C10. The click handler of the dialog calls \<open>nextDriver\<close> with an empty history
  and falls back to the first present member, so for a non-empty present list the driver
  it stores is the first member of the present list. The handler is given the present list
  only: the rides of the group are not among its inputs.
\<close>

theorem addRide_driver_first_present:
  "addRide_driverId clock (m # ms) = Str m"
  by (simp add: addRide_driverId_def nextDriver_no_history js_or_def first_elem_def)

theorem addRide_driver_first_present_witness:
  "addRide_driverId 9 (''bob'' # [''ann'']) = Str ''bob''"
  by (rule addRide_driver_first_present)

section \<open>Worked examples\<close>

lemma scenario_ride_today:
  "nextDriver 0 [''A'', ''B''] [ride_at 0 ''A''] (Some 0) = Str ''B''"
proof -
  have "\<not> ranks_le (accumulate 0 [''A'', ''B''] [ride_at 0 ''A'']) ''A'' ''B''"
    by (simp add: ranks_le_def nullish_zero_def count_simps weight_today rd_1)
  then show ?thesis by (simp add: nextDriver_pair now_of_def)
qed

lemma scenario_nobody_present:
  "nextDriver 0 [] [ride_at 0 ''A''] None = Null"
  by (simp add: nextDriver_def)

end
